theory Spec2Isabelle
  imports Main "HOL-Library.Char_ord" "HOL-Library.List_Lexorder" "HOL-Library.Multiset"
begin

section \<open>Strings and character classes\<close>

text \<open>
  A Python \<open>str\<close> is modelled as a \<open>string\<close> whose characters stand for the code
  points 0 to 255. The classes below are the ones Python's \<open>re\<close> module (Unicode
  mode, the default for \<open>str\<close> patterns) and \<open>str.strip\<close> use, restricted to
  that range.
\<close>

definition code :: "char \<Rightarrow> nat" where
  "code c = of_char c"

text \<open>\<open>\s\<close> and the characters \<open>str.strip()\<close> removes.\<close>

definition is_space :: "char \<Rightarrow> bool" where
  "is_space c = (code c \<in> {9, 10, 11, 12, 13, 28, 29, 30, 31, 32, 133, 160})"

definition is_upper :: "char \<Rightarrow> bool" where
  "is_upper c = (65 \<le> code c \<and> code c \<le> 90)"

definition is_lower :: "char \<Rightarrow> bool" where
  "is_lower c = (97 \<le> code c \<and> code c \<le> 122)"

text \<open>\<open>\d\<close>: the decimal digits.\<close>

definition is_digit :: "char \<Rightarrow> bool" where
  "is_digit c = (48 \<le> code c \<and> code c \<le> 57)"

text \<open>\<open>\w\<close>: alphanumeric characters and the underscore.\<close>

definition is_word :: "char \<Rightarrow> bool" where
  "is_word c = (is_upper c \<or> is_lower c \<or> is_digit c \<or> code c = 95
     \<or> code c \<in> {170, 178, 179, 181, 185, 186, 188, 189, 190}
     \<or> (192 \<le> code c \<and> code c \<noteq> 215 \<and> code c \<noteq> 247))"

text \<open>\<open>[A-Za-z\s]\<close>\<close>

definition is_name_char :: "char \<Rightarrow> bool" where
  "is_name_char c = (is_upper c \<or> is_lower c \<or> is_space c)"

definition strip :: "string \<Rightarrow> string" where
  "strip s = rev (dropWhile is_space (rev (dropWhile is_space s)))"

text \<open>\<open>str.lower()\<close> on the code points 0 to 255.\<close>

definition lower_char :: "char \<Rightarrow> char" where
  "lower_char c =
     (if is_upper c \<or> (192 \<le> code c \<and> code c \<le> 222 \<and> code c \<noteq> 215)
      then char_of (code c + 32) else c)"

definition lower :: "string \<Rightarrow> string" where
  "lower s = map lower_char s"

section \<open>Regular expressions with backtracking\<close>

text \<open>
  The two patterns of the program use character classes, greedy repetition of a class,
  an optional group, capture groups and the anchors \<open>^\<close> and \<open>$\<close>. A matcher state
  is the position reached, the text still to read and the groups captured so far (the
  latest capture of a group first). \<open>matches\<close> lists the states a pattern can end in,
  in the order Python's backtracking matcher tries them: the first one is its answer.
\<close>

datatype re =
    Cls "char \<Rightarrow> bool"
  | Star "char \<Rightarrow> bool"
  | Plus "char \<Rightarrow> bool"
  | Times nat "char \<Rightarrow> bool"
  | Opt re
  | Grp nat re
  | Cat "re list"
  | Bol
  | Eol

type_synonym mstate = "nat \<times> string \<times> (nat \<times> string) list"

fun star :: "(char \<Rightarrow> bool) \<Rightarrow> mstate \<Rightarrow> mstate list" where
  "star p (i, [], g) = [(i, [], g)]"
| "star p (i, c # cs, g) =
     (if p c then star p (Suc i, cs, g) @ [(i, c # cs, g)] else [(i, c # cs, g)])"

fun exactly :: "nat \<Rightarrow> (char \<Rightarrow> bool) \<Rightarrow> mstate \<Rightarrow> mstate list" where
  "exactly 0 p s = [s]"
| "exactly (Suc n) p (i, [], g) = []"
| "exactly (Suc n) p (i, c # cs, g) = (if p c then exactly n p (Suc i, cs, g) else [])"

fun matches :: "re \<Rightarrow> mstate \<Rightarrow> mstate list"
  and matches_cat :: "re list \<Rightarrow> mstate \<Rightarrow> mstate list" where
  "matches (Cls p) (i, rest, g) =
     (case rest of [] \<Rightarrow> [] | c # cs \<Rightarrow> if p c then [(Suc i, cs, g)] else [])"
| "matches (Star p) s = star p s"
| "matches (Plus p) (i, rest, g) =
     (case rest of [] \<Rightarrow> [] | c # cs \<Rightarrow> if p c then star p (Suc i, cs, g) else [])"
| "matches (Times n p) s = exactly n p s"
| "matches (Opt r) s = matches r s @ [s]"
| "matches (Grp k r) (i, rest, g) =
     map (\<lambda>(j, rest', g'). (j, rest', (k, take (j - i) rest) # g')) (matches r (i, rest, g))"
| "matches (Cat rs) s = matches_cat rs s"
| "matches Bol (i, rest, g) = (if i = 0 then [(i, rest, g)] else [])"
| "matches Eol (i, rest, g) =
     (if rest = [] \<or> rest = [CHR 0x0A] then [(i, rest, g)] else [])"
| "matches_cat [] s = [s]"
| "matches_cat (r # rs) s = concat (map (matches_cat rs) (matches r s))"

definition lit :: "char \<Rightarrow> re" where
  "lit c = Cls (\<lambda>x. x = c)"

text \<open>\<open>re.match\<close>: the pattern is tried at position 0 only; the result is the groups.\<close>

definition re_match :: "re \<Rightarrow> string \<Rightarrow> (nat \<rightharpoonup> string) option" where
  "re_match r s =
     (case matches r (0, s, []) of [] \<Rightarrow> None | (j, rest, g) # _ \<Rightarrow> Some (map_of g))"

text \<open>\<open>re.search\<close>: the pattern is tried at every position from the left.\<close>

fun search_from :: "re \<Rightarrow> nat \<Rightarrow> string \<Rightarrow> (nat \<rightharpoonup> string) option" where
  "search_from r i rest =
     (case matches r (i, rest, []) of
        (j, rest', g) # _ \<Rightarrow> Some (map_of g)
      | [] \<Rightarrow> (case rest of [] \<Rightarrow> None | c # cs \<Rightarrow> search_from r (Suc i) cs))"

definition re_search :: "re \<Rightarrow> string \<Rightarrow> (nat \<rightharpoonup> string) option" where
  "re_search r s = search_from r 0 s"

section \<open>The entry parser\<close>

record parsed_entry =
  handedness :: string
  pitcher_name :: string
  formatted_opponent :: string

text \<open>\<open>^(@)?\s*([A-Z]{3})\s*([A-Za-z\s]+)\s*\(([LR])\)$\<close>\<close>

definition pattern :: re where
  "pattern = Cat [Bol, Opt (Grp 1 (lit CHR ''@'')), Star is_space,
     Grp 2 (Times 3 is_upper), Star is_space, Grp 3 (Plus is_name_char), Star is_space,
     lit CHR ''('', Grp 4 (Cls (\<lambda>c. c = CHR ''L'' \<or> c = CHR ''R'')), lit CHR '')'', Eol]"

text \<open>A group that did not take part in the match reads as \<open>None\<close>; groups 2 to 4
  always take part when \<open>pattern\<close> matches.\<close>

definition match_group :: "(nat \<rightharpoonup> string) \<Rightarrow> nat \<Rightarrow> string" where
  "match_group m k = (case m k of None \<Rightarrow> [] | Some s \<Rightarrow> s)"

definition parse_pitcher_entry :: "string \<Rightarrow> parsed_entry option" where
  "parse_pitcher_entry entry =
     (case re_match pattern entry of
        None \<Rightarrow> None
      | Some m \<Rightarrow> Some \<lparr>
          handedness = match_group m 4,
          pitcher_name = strip (match_group m 3),
          formatted_opponent =
            (if m 1 = Some ''@'' then ''@'' else ''v'') @ '' '' @ match_group m 2 \<rparr>)"

section \<open>The document tree\<close>

text \<open>
  The parsed page: an element has a tag name, the values of its \<open>class\<close> attribute
  and its children; the other nodes are text. The soup object itself is the root element.
\<close>

datatype node = Text string | Elem string "string list" "node list"

text \<open>All nodes below a node, in document order.\<close>

fun descendants :: "node \<Rightarrow> node list" where
  "descendants (Text s) = []"
| "descendants (Elem t cl kids) = concat (map (\<lambda>k. k # descendants k) kids)"

fun is_tag :: "string \<Rightarrow> node \<Rightarrow> bool" where
  "is_tag t (Text s) = False"
| "is_tag t (Elem t' cl kids) = (t' = t)"

fun has_class :: "string \<Rightarrow> node \<Rightarrow> bool" where
  "has_class c (Text s) = False"
| "has_class c (Elem t cl kids) = (c \<in> set cl)"

definition find_all :: "string \<Rightarrow> node \<Rightarrow> node list" where
  "find_all t n = filter (is_tag t) (descendants n)"

text \<open>\<open>find\<close> returns the first node found, or \<open>None\<close>.\<close>

definition find_tag :: "string \<Rightarrow> node \<Rightarrow> node option" where
  "find_tag t n = (case find_all t n of [] \<Rightarrow> None | x # _ \<Rightarrow> Some x)"

definition find_class :: "string \<Rightarrow> string \<Rightarrow> node \<Rightarrow> node option" where
  "find_class t c n =
     (case filter (has_class c) (find_all t n) of [] \<Rightarrow> None | x # _ \<Rightarrow> Some x)"

fun text_of :: "node \<Rightarrow> string list" where
  "text_of (Text s) = [s]"
| "text_of (Elem t cl kids) = []"

text \<open>\<open>get_text(strip=True)\<close>: every text below the node is stripped, the empty ones
  are dropped and the rest are joined with nothing in between.\<close>

definition get_text :: "node \<Rightarrow> string" where
  "get_text n =
     concat (filter (\<lambda>s. s \<noteq> []) (map strip (concat (map text_of (descendants n)))))"

section \<open>The header date resolver\<close>

text \<open>\<open>datetime.now()\<close>, read once and passed in.\<close>

record clock =
  now_year :: nat
  now_month :: nat

datatype error = AttributeError | ValueError | OverflowError

text \<open>\<open>(\w{3})\s*(\d+/\d+)\<close>\<close>

definition date_pattern :: re where
  "date_pattern = Cat [Grp 1 (Times 3 is_word), Star is_space,
     Grp 2 (Cat [Plus is_digit, lit CHR ''/'', Plus is_digit])]"

text \<open>\<open>str.split(sep)\<close> for a separator of one character.\<close>

fun split :: "char \<Rightarrow> string \<Rightarrow> string list" where
  "split sep [] = [[]]"
| "split sep (c # cs) =
     (if c = sep then [] # split sep cs
      else (case split sep cs of [] \<Rightarrow> [[c]] | w # ws \<Rightarrow> (c # w) # ws))"

text \<open>\<open>int(s)\<close> for a string of decimal digits, which is all the resolver passes to it:
  a string of more than 4300 digits raises ValueError.\<close>

definition digits_value :: "string \<Rightarrow> nat" where
  "digits_value s = foldl (\<lambda>a c. 10 * a + (code c - 48)) 0 s"

definition py_int :: "string \<Rightarrow> error + nat" where
  "py_int s = (if 4300 < length s then Inl ValueError else Inr (digits_value s))"

definition is_leap :: "nat \<Rightarrow> bool" where
  "is_leap y = (y mod 4 = 0 \<and> (y mod 100 \<noteq> 0 \<or> y mod 400 = 0))"

definition days_in_month :: "nat \<Rightarrow> nat \<Rightarrow> nat" where
  "days_in_month y m =
     (if m = 2 then (if is_leap y then 29 else 28)
      else if m \<in> {4, 6, 9, 11} then 30 else 31)"

text \<open>\<open>datetime(year, month, day)\<close>: an argument that does not fit a C \<open>int\<close>
  (2147483648 or more) raises OverflowError, a date out of range raises ValueError.\<close>

definition datetime :: "nat \<Rightarrow> nat \<Rightarrow> nat \<Rightarrow> error + (nat \<times> nat \<times> nat)" where
  "datetime y m d =
     (if 2147483648 \<le> y \<or> 2147483648 \<le> m \<or> 2147483648 \<le> d then Inl OverflowError
      else if 1 \<le> y \<and> y \<le> 9999 \<and> 1 \<le> m \<and> m \<le> 12 \<and> 1 \<le> d \<and> d \<le> days_in_month y m
      then Inr (y, m, d) else Inl ValueError)"

fun decimal :: "nat \<Rightarrow> string" where
  "decimal n =
     (if n < 10 then [char_of (48 + n)] else decimal (n div 10) @ [char_of (48 + n mod 10)])"

declare decimal.simps [simp del]

definition zfill :: "nat \<Rightarrow> string \<Rightarrow> string" where
  "zfill w s = replicate (w - length s) CHR ''0'' @ s"

text \<open>\<open>strftime("%Y-%m-%d")\<close>, the year padded to four digits.\<close>

definition strftime :: "nat \<times> nat \<times> nat \<Rightarrow> string" where
  "strftime dt =
     (case dt of (y, m, d) \<Rightarrow>
        zfill 4 (decimal y) @ ''-'' @ zfill 2 (decimal m) @ ''-'' @ zfill 2 (decimal d))"

text \<open>The body of the \<open>try\<close> block: the month and the day are read from the second
  group, the year is chosen and the date is built and formatted. Unpacking anything but two
  parts raises ValueError.\<close>

definition date_of_month_day :: "clock \<Rightarrow> string \<Rightarrow> error + string" where
  "date_of_month_day now month_day =
     (case split CHR ''/'' month_day of
        [a, b] \<Rightarrow>
          (case py_int a of
             Inl e \<Rightarrow> Inl e
           | Inr month \<Rightarrow>
               (case py_int b of
                  Inl e \<Rightarrow> Inl e
                | Inr day \<Rightarrow>
                    (let year = (if month < now_month now then now_year now + 1 else now_year now)
                     in (case datetime year month day of
                           Inl e \<Rightarrow> Inl e
                         | Inr date_obj \<Rightarrow> Inr (strftime date_obj)))))
      | _ \<Rightarrow> Inl ValueError)"

text \<open>The body of the loop over the header cells: the date of one header text, or
  \<open>None\<close> when the text has no date token or a ValueError is caught; any other
  exception leaves the loop.\<close>

definition header_date :: "clock \<Rightarrow> string \<Rightarrow> error + string option" where
  "header_date now txt =
     (case re_search date_pattern txt of
        None \<Rightarrow> Inr None
      | Some m \<Rightarrow>
          (case date_of_month_day now (match_group m 2) of
             Inl e \<Rightarrow> (if e = ValueError then Inr None else Inl e)
           | Inr d \<Rightarrow> Inr (Some d)))"

fun header_loop ::
  "clock \<Rightarrow> nat \<Rightarrow> node list \<Rightarrow> (nat \<rightharpoonup> string) \<Rightarrow> error + (nat \<rightharpoonup> string)" where
  "header_loop now idx [] dates = Inr dates"
| "header_loop now idx (th # ths) dates =
     (case header_date now (get_text th) of
        Inl e \<Rightarrow> Inl e
      | Inr None \<Rightarrow> header_loop now (Suc idx) ths dates
      | Inr (Some d) \<Rightarrow> header_loop now (Suc idx) ths (dates(idx \<mapsto> d)))"

text \<open>Each \<open>find\<close> on the result of the one before: on \<open>None\<close> the attribute access
  raises.\<close>

definition header_row :: "node \<Rightarrow> error + node" where
  "header_row soup =
     (case find_class ''div'' ''table-scroll'' soup of
        None \<Rightarrow> Inl AttributeError
      | Some table_div \<Rightarrow>
          (case find_tag ''table'' table_div of
             None \<Rightarrow> Inl AttributeError
           | Some table \<Rightarrow>
               (case find_tag ''tbody'' table of
                  None \<Rightarrow> Inl AttributeError
                | Some tbody \<Rightarrow>
                    (case find_tag ''tr'' tbody of
                       None \<Rightarrow> Inl AttributeError
                     | Some tr \<Rightarrow> Inr tr))))"

definition extract_dates_from_headers :: "clock \<Rightarrow> node \<Rightarrow> error + (nat \<rightharpoonup> string)" where
  "extract_dates_from_headers now soup =
     (case header_row soup of
        Inl e \<Rightarrow> Inl e
      | Inr tr \<Rightarrow> header_loop now 1 (tl (find_all ''th'' tr)) Map.empty)"

section \<open>The row extractor\<close>

record pitcher_start =
  Date :: string
  Handedness :: string
  Pitcher :: string
  Opponent :: string

text \<open>\<open>dict.get(key, default)\<close>\<close>

definition get_default :: "(nat \<rightharpoonup> string) \<Rightarrow> nat \<Rightarrow> string \<Rightarrow> string" where
  "get_default m k d = (case m k of None \<Rightarrow> d | Some v \<Rightarrow> v)"

text \<open>The row built from a parsed entry and the date of its column.\<close>

definition entry_record :: "string \<Rightarrow> parsed_entry \<Rightarrow> pitcher_start" where
  "entry_record d e = \<lparr>Date = d, Handedness = handedness e, Pitcher = pitcher_name e,
     Opponent = formatted_opponent e\<rparr>"

text \<open>The loop over the cells of one row, \<open>col_idx\<close> counting from 1.\<close>

fun row_loop :: "(nat \<rightharpoonup> string) \<Rightarrow> string list \<Rightarrow> nat \<Rightarrow> string list \<Rightarrow> pitcher_start list" where
  "row_loop date_mapping player_names col_idx [] = []"
| "row_loop date_mapping player_names col_idx (item # items) =
     (case parse_pitcher_entry item of
        None \<Rightarrow> []
      | Some parsed_entry \<Rightarrow>
          (if player_names = [] \<or> lower (pitcher_name parsed_entry) \<in> set player_names
           then [\<lparr> Date = get_default date_mapping (col_idx - 1) ''Unknown'',
                   Handedness = handedness parsed_entry,
                   Pitcher = pitcher_name parsed_entry,
                   Opponent = formatted_opponent parsed_entry \<rparr>]
           else []))
     @ row_loop date_mapping player_names (Suc col_idx) items"

text \<open>The loop over the rows, each row's entries appended to \<open>parsed_rows\<close>.\<close>

fun table_loop :: "(nat \<rightharpoonup> string) \<Rightarrow> string list \<Rightarrow> node list \<Rightarrow> pitcher_start list" where
  "table_loop date_mapping player_names [] = []"
| "table_loop date_mapping player_names (tr # trs) =
     row_loop date_mapping player_names 1 (map get_text (find_all ''td'' tr))
     @ table_loop date_mapping player_names trs"

text \<open>The result is the warnings shown and the rows of the data frame; \<open>Inl\<close> is an
  exception that leaves the function.\<close>

definition extract_pitcher_starts ::
  "clock \<Rightarrow> node \<Rightarrow> string list \<Rightarrow> error + (string list \<times> pitcher_start list)" where
  "extract_pitcher_starts now soup player_names =
     (case find_class ''div'' ''table-scroll'' soup of
        None \<Rightarrow> Inr ([''Could not find table with class 'table-scroll' ''], [])
      | Some table_div \<Rightarrow>
          (case find_tag ''table'' table_div of
             None \<Rightarrow> Inr ([''No table found within the 'table-scroll' div''], [])
           | Some table \<Rightarrow>
               (case extract_dates_from_headers now soup of
                  Inl e \<Rightarrow> Inl e
                | Inr date_mapping \<Rightarrow>
                    Inr ([], sort_key Date
                      (table_loop date_mapping player_names (tl (find_all ''tr'' table)))))))"

section \<open>Sample documents\<close>

text \<open>A grid whose only data cell holds an opponent code, two spaces and the
  handedness marker.\<close>

definition no_name_doc :: node where
  "no_name_doc = Elem ''[document]'' [] [Elem ''div'' [''table-scroll''] [Elem ''table'' [] [
     Elem ''tbody'' [] [
       Elem ''tr'' [] [Elem ''th'' [] [Text ''Team''], Elem ''th'' [] [Text ''Mon 3/10'']],
       Elem ''tr'' [] [Elem ''td'' [] [Text ''NYY  (L)'']]]]]]"

text \<open>A grid whose table holds its rows directly, with no \<open>tbody\<close> element.\<close>

definition no_tbody_doc :: node where
  "no_tbody_doc = Elem ''[document]'' [] [Elem ''div'' [''table-scroll''] [Elem ''table'' [] [
     Elem ''tr'' [] [Elem ''th'' [] [Text ''Team'']]]]]"

text \<open>A grid with one header row and one data row, the clock read in April 2025, and
  the three rows the data row gives.\<close>

definition grid_header_row :: node where
  "grid_header_row = Elem ''tr'' [] [Elem ''th'' [] [Text ''Team''],
     Elem ''th'' [] [Text ''Mon 3/10''], Elem ''th'' [] [Text ''Tue 2/30'']]"

definition grid_data_row :: node where
  "grid_data_row = Elem ''tr'' [] [Elem ''td'' [] [Text ''TOR Jane Doe (R)''],
     Elem ''td'' [] [Text ''@ BOS John Smith (L)''], Elem ''td'' [] [Text ''NYY Max Fried (L)'']]"

definition grid_table :: node where
  "grid_table = Elem ''table'' [] [Elem ''tbody'' [] [grid_header_row, grid_data_row]]"

definition grid_div :: node where
  "grid_div = Elem ''div'' [''table-scroll''] [grid_table]"

definition grid_doc :: node where
  "grid_doc = Elem ''[document]'' [] [grid_div]"

definition grid_clock :: clock where
  "grid_clock = \<lparr>now_year = 2025, now_month = 4\<rparr>"

definition john_row :: pitcher_start where
  "john_row = \<lparr>Date = ''2026-03-10'', Handedness = ''L'', Pitcher = ''John Smith'',
     Opponent = ''@ BOS''\<rparr>"

definition jane_row :: pitcher_start where
  "jane_row = \<lparr>Date = ''Unknown'', Handedness = ''R'', Pitcher = ''Jane Doe'',
     Opponent = ''v TOR''\<rparr>"

definition max_row :: pitcher_start where
  "max_row = \<lparr>Date = ''Unknown'', Handedness = ''L'', Pitcher = ''Max Fried'',
     Opponent = ''v NYY''\<rparr>"




section \<open>The shape of an accepted entry\<close>

text \<open>The pieces of a cell text that \<open>pattern\<close> accepts: the away marker \<open>a\<close>,
  whitespace \<open>w0\<close>, the opponent code \<open>cd\<close>, whitespace \<open>w1\<close>, the name
  \<open>m\<close>, whitespace \<open>w2\<close>, the handedness letter \<open>X\<close> and what follows the closing
  parenthesis, \<open>nl\<close>.\<close>

definition entry_shape :: "string \<Rightarrow> string \<Rightarrow> string \<Rightarrow> string \<Rightarrow> string \<Rightarrow> string \<Rightarrow> char \<Rightarrow> string \<Rightarrow> bool" where
  "entry_shape a w0 cd w1 m w2 X nl \<longleftrightarrow>
     (a = [] \<or> a = ''@'') \<and> (\<forall>c\<in>set w0. is_space c) \<and> length cd = 3 \<and> (\<forall>c\<in>set cd. is_upper c)
     \<and> (\<forall>c\<in>set w1. is_space c) \<and> m \<noteq> [] \<and> (\<forall>c\<in>set m. is_name_char c)
     \<and> (\<forall>c\<in>set w2. is_space c) \<and> (X = CHR ''L'' \<or> X = CHR ''R'') \<and> (nl = [] \<or> nl = [CHR 0x0A])"

section \<open>The shape of a date token\<close>


section \<open>Facts about the matcher\<close>

lemma in_star:
  "(j, r, g') \<in> set (star p (i, s, g)) \<longleftrightarrow>
     (\<exists>w. s = w @ r \<and> (\<forall>c\<in>set w. p c) \<and> j = i + length w \<and> g' = g)"
proof (induction s arbitrary: i)
  case Nil
  then show ?case by auto
next
  case (Cons c cs)
  show ?case
  proof (cases "p c")
    case True
    have "(j, r, g') \<in> set (star p (i, c # cs, g)) \<longleftrightarrow>
            (j, r, g') \<in> set (star p (Suc i, cs, g)) \<or> (j = i \<and> r = c # cs \<and> g' = g)"
      using True by auto
    also have "\<dots> \<longleftrightarrow> (\<exists>w. cs = w @ r \<and> (\<forall>c\<in>set w. p c) \<and> j = Suc i + length w \<and> g' = g)
                  \<or> (j = i \<and> r = c # cs \<and> g' = g)"
      by (simp only: Cons.IH)
    also have "\<dots> \<longleftrightarrow> (\<exists>w. c # cs = w @ r \<and> (\<forall>c\<in>set w. p c) \<and> j = i + length w \<and> g' = g)"
      (is "?L \<longleftrightarrow> ?R")
    proof
      assume ?L
      then show ?R
      proof
        assume "\<exists>w. cs = w @ r \<and> (\<forall>c\<in>set w. p c) \<and> j = Suc i + length w \<and> g' = g"
        then obtain w where "cs = w @ r" "\<forall>c\<in>set w. p c" "j = Suc i + length w" "g' = g" by blast
        then have "c # cs = (c # w) @ r \<and> (\<forall>x\<in>set (c # w). p x) \<and> j = i + length (c # w) \<and> g' = g"
          using True by simp
        then show ?R by blast
      next
        assume "j = i \<and> r = c # cs \<and> g' = g"
        then have "c # cs = [] @ r \<and> (\<forall>x\<in>set []. p x) \<and> j = i + length ([]::string) \<and> g' = g" by simp
        then show ?R by blast
      qed
    next
      assume ?R
      then obtain w where w: "c # cs = w @ r" "\<forall>c\<in>set w. p c" "j = i + length w" "g' = g" by blast
      show ?L
      proof (cases w)
        case Nil
        then show ?thesis using w by simp
      next
        case (Cons x w')
        then have "cs = w' @ r \<and> (\<forall>c\<in>set w'. p c) \<and> j = Suc i + length w' \<and> g' = g"
          using w by simp
        then show ?thesis by blast
      qed
    qed
    finally show ?thesis .
  next
    case False
    have "(j, r, g') \<in> set (star p (i, c # cs, g)) \<longleftrightarrow> (j = i \<and> r = c # cs \<and> g' = g)"
      using False by auto
    also have "\<dots> \<longleftrightarrow> (\<exists>w. c # cs = w @ r \<and> (\<forall>c\<in>set w. p c) \<and> j = i + length w \<and> g' = g)"
      (is "?L \<longleftrightarrow> ?R")
    proof
      assume ?L
      then have "c # cs = [] @ r \<and> (\<forall>x\<in>set []. p x) \<and> j = i + length ([]::string) \<and> g' = g" by simp
      then show ?R by blast
    next
      assume ?R
      then obtain w where w: "c # cs = w @ r" "\<forall>c\<in>set w. p c" "j = i + length w" "g' = g" by blast
      show ?L
      proof (cases w)
        case Nil
        then show ?thesis using w by simp
      next
        case (Cons x w')
        then show ?thesis using w False by simp
      qed
    qed
    finally show ?thesis .
  qed
qed

lemma in_exactly:
  "(j, r, g') \<in> set (exactly n p (i, s, g)) \<longleftrightarrow>
     (\<exists>w. s = w @ r \<and> length w = n \<and> (\<forall>c\<in>set w. p c) \<and> j = i + n \<and> g' = g)"
proof (induction n arbitrary: i s)
  case 0
  then show ?case by auto
next
  case (Suc n)
  show ?case
  proof (cases s)
    case Nil
    then show ?thesis by auto
  next
    case (Cons c cs)
    show ?thesis
    proof (cases "p c")
      case True
      have "(j, r, g') \<in> set (exactly (Suc n) p (i, s, g)) \<longleftrightarrow>
         (\<exists>w. cs = w @ r \<and> length w = n \<and> (\<forall>c\<in>set w. p c) \<and> j = Suc i + n \<and> g' = g)"
        using True Cons Suc.IH by simp
      also have "\<dots> \<longleftrightarrow> (\<exists>w. s = w @ r \<and> length w = Suc n \<and> (\<forall>c\<in>set w. p c) \<and> j = i + Suc n \<and> g' = g)"
        (is "?L \<longleftrightarrow> ?R")
      proof
        assume ?L
        then obtain w where "cs = w @ r" "length w = n" "\<forall>c\<in>set w. p c" "j = Suc i + n" "g' = g" by blast
        then have "s = (c # w) @ r \<and> length (c # w) = Suc n \<and> (\<forall>x\<in>set (c # w). p x) \<and> j = i + Suc n \<and> g' = g"
          using True Cons by simp
        then show ?R by blast
      next
        assume ?R
        then obtain w where w: "s = w @ r" "length w = Suc n" "\<forall>c\<in>set w. p c" "j = i + Suc n" "g' = g" by blast
        then obtain x w' where "w = x # w'" by (cases w) auto
        then have "cs = w' @ r \<and> length w' = n \<and> (\<forall>c\<in>set w'. p c) \<and> j = Suc i + n \<and> g' = g"
          using w Cons by simp
        then show ?L by blast
      qed
      finally show ?thesis .
    next
      case False
      have "\<not> (\<exists>w. s = w @ r \<and> length w = Suc n \<and> (\<forall>c\<in>set w. p c) \<and> j = i + Suc n \<and> g' = g)"
      proof
        assume "\<exists>w. s = w @ r \<and> length w = Suc n \<and> (\<forall>c\<in>set w. p c) \<and> j = i + Suc n \<and> g' = g"
        then obtain w where w: "s = w @ r" "length w = Suc n" "\<forall>c\<in>set w. p c" by blast
        then obtain x w' where "w = x # w'" by (cases w) auto
        then show False using w Cons False by simp
      qed
      then show ?thesis using False Cons by simp
    qed
  qed
qed

lemma in_cls:
  "(j, r, g') \<in> set (matches (Cls p) (i, s, g)) \<longleftrightarrow>
     (\<exists>c. s = c # r \<and> p c \<and> j = Suc i \<and> g' = g)"
  by (cases s) auto

lemma in_plus:
  "(j, r, g') \<in> set (matches (Plus p) (i, s, g)) \<longleftrightarrow>
     (\<exists>w. s = w @ r \<and> w \<noteq> [] \<and> (\<forall>c\<in>set w. p c) \<and> j = i + length w \<and> g' = g)"
proof (cases s)
  case Nil
  then show ?thesis by auto
next
  case (Cons c cs)
  show ?thesis
  proof (cases "p c")
    case True
    have "(j, r, g') \<in> set (matches (Plus p) (i, s, g)) \<longleftrightarrow>
       (\<exists>w. cs = w @ r \<and> (\<forall>c\<in>set w. p c) \<and> j = Suc i + length w \<and> g' = g)"
      using True Cons by (simp add: in_star)
    also have "\<dots> \<longleftrightarrow> (\<exists>w. s = w @ r \<and> w \<noteq> [] \<and> (\<forall>c\<in>set w. p c) \<and> j = i + length w \<and> g' = g)"
      (is "?L \<longleftrightarrow> ?R")
    proof
      assume ?L
      then obtain w where "cs = w @ r" "\<forall>c\<in>set w. p c" "j = Suc i + length w" "g' = g" by blast
      then have "s = (c # w) @ r \<and> c # w \<noteq> [] \<and> (\<forall>x\<in>set (c # w). p x) \<and> j = i + length (c # w) \<and> g' = g"
        using True Cons by simp
      then show ?R by blast
    next
      assume ?R
      then obtain w where w: "s = w @ r" "w \<noteq> []" "\<forall>c\<in>set w. p c" "j = i + length w" "g' = g" by blast
      then obtain x w' where "w = x # w'" by (cases w) auto
      then have "cs = w' @ r \<and> (\<forall>c\<in>set w'. p c) \<and> j = Suc i + length w' \<and> g' = g"
        using w Cons by simp
      then show ?L by blast
    qed
    finally show ?thesis .
  next
    case False
    have "\<not> (\<exists>w. s = w @ r \<and> w \<noteq> [] \<and> (\<forall>c\<in>set w. p c) \<and> j = i + length w \<and> g' = g)"
    proof
      assume "\<exists>w. s = w @ r \<and> w \<noteq> [] \<and> (\<forall>c\<in>set w. p c) \<and> j = i + length w \<and> g' = g"
      then obtain w where w: "s = w @ r" "w \<noteq> []" "\<forall>c\<in>set w. p c" by blast
      then obtain x w' where "w = x # w'" by (cases w) auto
      then show False using w Cons False by simp
    qed
    then show ?thesis using False Cons by simp
  qed
qed


lemma in_cat_nil: "t \<in> set (matches_cat [] s) \<longleftrightarrow> t = s"
  by auto

lemma in_cat_cons:
  "t \<in> set (matches_cat (x # rs) s) \<longleftrightarrow>
     (\<exists>j' s' g'. (j', s', g') \<in> set (matches x s) \<and> t \<in> set (matches_cat rs (j', s', g')))"
  by auto

lemma in_star_m:
  "(j, r, g') \<in> set (matches (Star p) (i, s, g)) \<longleftrightarrow>
     (\<exists>w. s = w @ r \<and> (\<forall>c\<in>set w. p c) \<and> j = i + length w \<and> g' = g)"
  by (simp add: in_star)

lemma in_exactly_m:
  "(j, r, g') \<in> set (matches (Times n p) (i, s, g)) \<longleftrightarrow>
     (\<exists>w. s = w @ r \<and> length w = n \<and> (\<forall>c\<in>set w. p c) \<and> j = i + n \<and> g' = g)"
  by (simp add: in_exactly)

lemma in_cat_star:
  "(j, r, G) \<in> set (matches_cat (Star p # rs) (i, s, g)) \<longleftrightarrow>
     (\<exists>w s'. s = w @ s' \<and> (\<forall>c\<in>set w. p c) \<and> (j, r, G) \<in> set (matches_cat rs (i + length w, s', g)))"
  unfolding in_cat_cons in_star_m by blast

lemma in_cat_plus:
  "(j, r, G) \<in> set (matches_cat (Plus p # rs) (i, s, g)) \<longleftrightarrow>
     (\<exists>w s'. s = w @ s' \<and> w \<noteq> [] \<and> (\<forall>c\<in>set w. p c) \<and> (j, r, G) \<in> set (matches_cat rs (i + length w, s', g)))"
  unfolding in_cat_cons in_plus by blast

lemma in_cat_exactly:
  "(j, r, G) \<in> set (matches_cat (Times n p # rs) (i, s, g)) \<longleftrightarrow>
     (\<exists>w s'. s = w @ s' \<and> length w = n \<and> (\<forall>c\<in>set w. p c) \<and> (j, r, G) \<in> set (matches_cat rs (i + n, s', g)))"
  unfolding in_cat_cons in_exactly_m by blast

lemma in_cat_cls:
  "(j, r, G) \<in> set (matches_cat (Cls p # rs) (i, s, g)) \<longleftrightarrow>
     (\<exists>c s'. s = c # s' \<and> p c \<and> (j, r, G) \<in> set (matches_cat rs (Suc i, s', g)))"
  unfolding in_cat_cons in_cls by blast

lemma in_grp:
  "(j, r, G) \<in> set (matches (Grp k x) (i, s, g)) \<longleftrightarrow>
     (\<exists>g'. (j, r, g') \<in> set (matches x (i, s, g)) \<and> G = (k, take (j - i) s) # g')"
proof
  assume "(j, r, G) \<in> set (matches (Grp k x) (i, s, g))"
  then obtain u where u: "u \<in> set (matches x (i, s, g))"
    and e: "(j, r, G) = (case u of (j, rest', g') \<Rightarrow> (j, rest', (k, take (j - i) s) # g'))"
    by (auto simp del: matches.simps(1-5,7-9))
  obtain a b c where "u = (a, b, c)" by (cases u) auto
  with u e show "\<exists>g'. (j, r, g') \<in> set (matches x (i, s, g)) \<and> G = (k, take (j - i) s) # g'"
    by auto
next
  assume "\<exists>g'. (j, r, g') \<in> set (matches x (i, s, g)) \<and> G = (k, take (j - i) s) # g'"
  then obtain g' where u: "(j, r, g') \<in> set (matches x (i, s, g))" and G: "G = (k, take (j - i) s) # g'"
    by blast
  have "(\<lambda>(j, rest', g'). (j, rest', (k, take (j - i) s) # g')) (j, r, g') = (j, r, G)"
    using G by simp
  then have "(j, r, G) \<in> (\<lambda>(j, rest', g'). (j, rest', (k, take (j - i) s) # g')) ` set (matches x (i, s, g))"
    using u by (metis (no_types, lifting) image_eqI)
  then show "(j, r, G) \<in> set (matches (Grp k x) (i, s, g))"
    by (simp del: matches.simps(1-5,7-9))
qed

lemma in_cat_grp:
  "(j, r, G) \<in> set (matches_cat (Grp k x # rs) (i, s, g)) \<longleftrightarrow>
     (\<exists>j' s' g'. (j', s', g') \<in> set (matches x (i, s, g))
        \<and> (j, r, G) \<in> set (matches_cat rs (j', s', (k, take (j' - i) s) # g')))"
  unfolding in_cat_cons in_grp by blast

lemma in_cat_opt:
  "t \<in> set (matches_cat (Opt x # rs) s) \<longleftrightarrow>
     (\<exists>j' s' g'. (j', s', g') \<in> set (matches x s) \<and> t \<in> set (matches_cat rs (j', s', g')))
     \<or> t \<in> set (matches_cat rs s)"
  by auto

lemma in_cat_bol:
  "t \<in> set (matches_cat (Bol # rs) (i, s, g)) \<longleftrightarrow> i = 0 \<and> t \<in> set (matches_cat rs (i, s, g))"
  by auto

lemma in_cat_eol:
  "t \<in> set (matches_cat (Eol # rs) (i, s, g)) \<longleftrightarrow>
     (s = [] \<or> s = [CHR 0x0A]) \<and> t \<in> set (matches_cat rs (i, s, g))"
  by auto

lemma in_cat_cat:
  "t \<in> set (matches (Cat rs) s) \<longleftrightarrow> t \<in> set (matches_cat rs s)"
  by simp

lemmas in_cat_simps = in_cat_cat in_cat_bol in_cat_eol in_cat_opt in_cat_star in_cat_plus
  in_cat_exactly in_cat_cls in_cat_grp in_cat_nil in_grp in_cls in_plus in_exactly_m in_star_m

lemma pattern_sound:
  assumes "(j, r, G) \<in> set (matches pattern (0, e, []))"
  shows "\<exists>a w0 cd w1 m w2 X. e = a @ w0 @ cd @ w1 @ m @ w2 @ CHR ''('' # X # CHR '')'' # r
     \<and> entry_shape a w0 cd w1 m w2 X r
     \<and> G = [(4, [X]), (3, m), (2, cd)] @ (if a = ''@'' then [(1, ''@'')] else [])"
  using assms unfolding pattern_def lit_def
  apply (simp only: in_cat_simps)
  apply (elim disjE exE conjE)
         apply (clarsimp, intro exI conjI, rule refl, simp add: entry_shape_def)+
     apply (rule exI[of _ "[]"], clarsimp, intro exI conjI, rule refl, simp add: entry_shape_def)+
  done

lemma cat_starI:
  "\<forall>c\<in>set w. p c \<Longrightarrow> (j, r, G) \<in> set (matches_cat rs (i + length w, s', g))
     \<Longrightarrow> (j, r, G) \<in> set (matches_cat (Star p # rs) (i, w @ s', g))"
  unfolding in_cat_star by blast

lemma cat_clsI:
  "p c \<Longrightarrow> (j, r, G) \<in> set (matches_cat rs (Suc i, s', g))
     \<Longrightarrow> (j, r, G) \<in> set (matches_cat (Cls p # rs) (i, c # s', g))"
  unfolding in_cat_cls by blast

lemma cat_grpI:
  "(j', s', g') \<in> set (matches x (i, s, g))
     \<Longrightarrow> (j, r, G) \<in> set (matches_cat rs (j', s', (k, take (j' - i) s) # g'))
     \<Longrightarrow> (j, r, G) \<in> set (matches_cat (Grp k x # rs) (i, s, g))"
  unfolding in_cat_grp by blast

lemma exactlyI:
  "length w = n \<Longrightarrow> \<forall>c\<in>set w. p c \<Longrightarrow> (i + n, r, g) \<in> set (matches (Times n p) (i, w @ r, g))"
  unfolding in_exactly_m by blast

lemma plusI:
  "w \<noteq> [] \<Longrightarrow> \<forall>c\<in>set w. p c \<Longrightarrow> (i + length w, r, g) \<in> set (matches (Plus p) (i, w @ r, g))"
  unfolding in_plus by blast

lemma clsI:
  "p c \<Longrightarrow> (Suc i, r, g) \<in> set (matches (Cls p) (i, c # r, g))"
  unfolding in_cls by blast

lemma grpI:
  "(j, r, g') \<in> set (matches x (i, s, g))
     \<Longrightarrow> (j, r, (k, take (j - i) s) # g') \<in> set (matches (Grp k x) (i, s, g))"
  unfolding in_grp by blast

lemma cat_eolI:
  "s = [] \<or> s = [CHR 0x0A] \<Longrightarrow> (i, s, g) \<in> set (matches_cat [Eol] (i, s, g))"
  by auto

lemma cat_opt_skipI:
  "t \<in> set (matches_cat rs s) \<Longrightarrow> t \<in> set (matches_cat (Opt x # rs) s)"
  by auto

lemma cat_opt_takeI:
  "(j', s', g') \<in> set (matches x s) \<Longrightarrow> t \<in> set (matches_cat rs (j', s', g'))
     \<Longrightarrow> t \<in> set (matches_cat (Opt x # rs) s)"
  unfolding in_cat_opt by blast

lemma pattern_body_complete:
  assumes "entry_shape a w0 cd w1 m w2 X nl"
  shows "\<exists>t. t \<in> set (matches_cat [Star is_space,
     Grp 2 (Times 3 is_upper), Star is_space, Grp 3 (Plus is_name_char), Star is_space,
     Cls (\<lambda>x. x = CHR ''(''), Grp 4 (Cls (\<lambda>c. c = CHR ''L'' \<or> c = CHR ''R'')),
     Cls (\<lambda>x. x = CHR '')''), Eol] (i, w0 @ cd @ w1 @ m @ w2 @ CHR ''('' # X # CHR '')'' # nl, g))"
proof -
  from assms have sp0: "\<forall>c\<in>set w0. is_space c" and cd: "length cd = 3" "\<forall>c\<in>set cd. is_upper c"
    and sp1: "\<forall>c\<in>set w1. is_space c" and m: "m \<noteq> []" "\<forall>c\<in>set m. is_name_char c"
    and sp2: "\<forall>c\<in>set w2. is_space c" and X: "X = CHR ''L'' \<or> X = CHR ''R''"
    and nl: "nl = [] \<or> nl = [CHR 0x0A]"
    by (simp_all add: entry_shape_def)
  show ?thesis
    apply (rule exI[of _ "(_, _, _)"])
    apply (rule cat_starI[OF sp0])
    apply (rule cat_grpI[OF exactlyI[OF cd]])
    apply (rule cat_starI[OF sp1])
    apply (rule cat_grpI[OF plusI[OF m]])
    apply (rule cat_starI[OF sp2])
    apply (rule cat_clsI[OF refl])
    apply (rule cat_grpI[OF clsI[of "\<lambda>c. c = CHR ''L'' \<or> c = CHR ''R''", OF X]])
    apply (rule cat_clsI[OF refl])
    apply (rule cat_eolI[OF nl])
    done
qed

lemma pattern_complete:
  assumes "entry_shape a w0 cd w1 m w2 X nl"
  shows "matches pattern (0, a @ w0 @ cd @ w1 @ m @ w2 @ CHR ''('' # X # CHR '')'' # nl, []) \<noteq> []"
proof -
  let ?rest = "w0 @ cd @ w1 @ m @ w2 @ CHR ''('' # X # CHR '')'' # nl"
  from assms have "a = [] \<or> a = ''@''" by (simp add: entry_shape_def)
  then have "\<exists>t. t \<in> set (matches pattern (0, a @ ?rest, []))"
  proof
    assume a: "a = []"
    from pattern_body_complete[OF assms, of 0 "[]"] obtain t where
      "t \<in> set (matches_cat [Star is_space,
     Grp 2 (Times 3 is_upper), Star is_space, Grp 3 (Plus is_name_char), Star is_space,
     Cls (\<lambda>x. x = CHR ''(''), Grp 4 (Cls (\<lambda>c. c = CHR ''L'' \<or> c = CHR ''R'')),
     Cls (\<lambda>x. x = CHR '')''), Eol] (0, ?rest, []))" by blast
    then have "t \<in> set (matches pattern (0, a @ ?rest, []))"
      unfolding pattern_def lit_def a
      by (simp only: in_cat_cat in_cat_bol append_Nil cat_opt_skipI simp_thms)
    then show ?thesis by blast
  next
    assume a: "a = ''@''"
    from pattern_body_complete[OF assms, of 1 "[(1, take (Suc 0 - 0) (CHR ''@'' # ?rest))]"] obtain t where
      t: "t \<in> set (matches_cat [Star is_space,
     Grp 2 (Times 3 is_upper), Star is_space, Grp 3 (Plus is_name_char), Star is_space,
     Cls (\<lambda>x. x = CHR ''(''), Grp 4 (Cls (\<lambda>c. c = CHR ''L'' \<or> c = CHR ''R'')),
     Cls (\<lambda>x. x = CHR '')''), Eol] (1, ?rest, [(1, take (Suc 0 - 0) (CHR ''@'' # ?rest))]))" by blast
    have g: "(Suc 0, ?rest, [(1, take (Suc 0 - 0) (CHR ''@'' # ?rest))])
        \<in> set (matches (Grp 1 (Cls (\<lambda>x. x = CHR ''@''))) (0, CHR ''@'' # ?rest, []))"
      by (rule grpI[OF clsI[OF refl]])
    have "t \<in> set (matches pattern (0, a @ ?rest, []))"
      unfolding pattern_def lit_def a
      apply (simp only: in_cat_cat in_cat_bol append_Cons append_Nil simp_thms)
      apply (rule cat_opt_takeI[OF g])
      using t apply simp
      done
    then show ?thesis by blast
  qed
  then show ?thesis by auto
qed

section \<open>Facts about the entry parser\<close>

lemma space_not_paren: "is_space c \<Longrightarrow> c \<noteq> CHR ''(''"
  by (auto simp: is_space_def code_def)

lemma upper_not_paren: "is_upper c \<Longrightarrow> c \<noteq> CHR ''(''"
  by (auto simp: is_upper_def code_def)

lemma name_char_not_paren: "is_name_char c \<Longrightarrow> c \<noteq> CHR ''(''"
  by (auto simp: is_name_char_def is_upper_def is_lower_def is_space_def code_def)

lemma upper_not_space: "is_upper c \<Longrightarrow> \<not> is_space c"
  by (auto simp: is_upper_def is_space_def)

lemma at_not_space: "\<not> is_space CHR ''@''"
  by (simp add: is_space_def code_def)

lemma at_not_upper: "\<not> is_upper CHR ''@''"
  by (simp add: is_upper_def code_def)

lemma prefix_unique:
  assumes "\<forall>c\<in>set u. P c" "\<forall>c\<in>set u'. P c" "\<not> P x" "\<not> P x'"
    and "u @ x # v = u' @ x' # v'"
  shows "u = u' \<and> x = x' \<and> v = v'"
proof -
  have "takeWhile P (u @ x # v) = u" "takeWhile P (u' @ x' # v') = u'"
    using assms(1-4) by (simp_all add: takeWhile_tail)
  then have "u = u'" by (simp only: assms(5))
  with assms(5) show ?thesis by simp
qed

lemma strip_spaces:
  assumes "\<forall>c\<in>set w1. is_space c" "\<forall>c\<in>set w2. is_space c"
  shows "strip (w1 @ m @ w2) = strip m"
proof -
  have a: "dropWhile is_space (w1 @ m @ w2) = dropWhile is_space (m @ w2)"
    using assms(1) by (simp add: dropWhile_append2)
  show ?thesis
  proof (cases "\<forall>c\<in>set m. is_space c")
    case True
    have "dropWhile is_space (m @ w2) = []"
      using True assms(2) by (simp add: dropWhile_eq_Nil_conv ball_Un)
    moreover have "dropWhile is_space m = []"
      using True by (simp add: dropWhile_eq_Nil_conv)
    ultimately show ?thesis using a by (simp only: strip_def)
  next
    case False
    then have "dropWhile is_space (m @ w2) = dropWhile is_space m @ w2"
      by (auto simp: dropWhile_append1)
    moreover have "dropWhile is_space (rev w2 @ ys) = dropWhile is_space ys" for ys
      using assms(2) by (intro dropWhile_append2) simp
    ultimately show ?thesis using a by (simp add: strip_def)
  qed
qed

lemma length3: "length xs = 3 \<Longrightarrow> \<exists>x y z. xs = [x, y, z]"
  by (auto simp: length_Suc_conv numeral_3_eq_3)

lemma hd_not_at:
  assumes "\<forall>c\<in>set w. is_space c" "is_upper c"
  shows "hd (w @ c # R) \<noteq> CHR ''@''"
proof (cases w)
  case Nil
  then show ?thesis using assms(2) at_not_upper by auto
next
  case (Cons a list)
  then have "is_space a" using assms(1) by simp
  then show ?thesis using Cons at_not_space by auto
qed

lemma shape_unique:
  assumes s: "entry_shape a w0 cd w1 m w2 X nl" and s': "entry_shape a' w0' cd' w1' m' w2' X' nl'"
    and e: "a @ w0 @ cd @ w1 @ m @ w2 @ CHR ''('' # X # CHR '')'' # nl
          = a' @ w0' @ cd' @ w1' @ m' @ w2' @ CHR ''('' # X' # CHR '')'' # nl'"
  shows "a = a' \<and> cd = cd' \<and> w1 @ m @ w2 = w1' @ m' @ w2' \<and> X = X' \<and> nl = nl'"
proof -
  from s have a: "a = [] \<or> a = ''@''" and sp0: "\<forall>c\<in>set w0. is_space c"
    and len: "length cd = 3" and upc: "\<forall>c\<in>set cd. is_upper c"
    and sp1: "\<forall>c\<in>set w1. is_space c" and nm: "\<forall>c\<in>set m. is_name_char c"
    and sp2: "\<forall>c\<in>set w2. is_space c"
    unfolding entry_shape_def by blast+
  from s' have a': "a' = [] \<or> a' = ''@''" and sp0': "\<forall>c\<in>set w0'. is_space c"
    and len': "length cd' = 3" and upc': "\<forall>c\<in>set cd'. is_upper c"
    and sp1': "\<forall>c\<in>set w1'. is_space c" and nm': "\<forall>c\<in>set m'. is_name_char c"
    and sp2': "\<forall>c\<in>set w2'. is_space c"
    unfolding entry_shape_def by blast+
  from length3[OF len] obtain x y z where cd: "cd = [x, y, z]" by blast
  from length3[OF len'] obtain x' y' z' where cd': "cd' = [x', y', z']" by blast
  have up: "is_upper x" "is_upper x'" using upc upc' cd cd' by simp_all
  let ?R = "w1 @ m @ w2 @ CHR ''('' # X # CHR '')'' # nl"
  let ?R' = "w1' @ m' @ w2' @ CHR ''('' # X' # CHR '')'' # nl'"
  have aa: "a = a'"
  proof (rule ccontr)
    assume ne: "a \<noteq> a'"
    show False
    proof (cases "a = []")
      case True
      then have "a' = ''@''" using a' ne by auto
      then have "w0 @ x # (y # z # ?R) = CHR ''@'' # w0' @ cd' @ ?R'" using e cd True by simp
      then have "hd (w0 @ x # (y # z # ?R)) = CHR ''@''" by (simp only: list.sel)
      then show False using hd_not_at[OF sp0 up(1)] by blast
    next
      case False
      then have "a = ''@''" "a' = []" using a a' ne by auto
      then have "w0' @ x' # (y' # z' # ?R') = CHR ''@'' # w0 @ cd @ ?R" using e cd' by simp
      then have "hd (w0' @ x' # (y' # z' # ?R')) = CHR ''@''" by (simp only: list.sel)
      then show False using hd_not_at[OF sp0' up(2)] by blast
    qed
  qed
  have e1: "w0 @ x # (y # z # ?R) = w0' @ x' # (y' # z' # ?R')"
    using e cd cd' aa by simp
  have u1: "w0 = w0' \<and> x = x' \<and> y # z # ?R = y' # z' # ?R'"
    by (rule prefix_unique[OF sp0 sp0' upper_not_space[OF up(1)] upper_not_space[OF up(2)] e1])
  have cdeq: "cd = cd'" using u1 cd cd' by simp
  have e2: "(w1 @ m @ w2) @ CHR ''('' # (X # CHR '')'' # nl)
       = (w1' @ m' @ w2') @ CHR ''('' # (X' # CHR '')'' # nl')"
    using u1 by simp
  have np: "\<forall>c\<in>set (w1 @ m @ w2). c \<noteq> CHR ''(''"
    using sp1 nm sp2 space_not_paren name_char_not_paren by (auto simp: ball_Un)
  have np': "\<forall>c\<in>set (w1' @ m' @ w2'). c \<noteq> CHR ''(''"
    using sp1' nm' sp2' space_not_paren name_char_not_paren by (auto simp: ball_Un)
  have u2: "w1 @ m @ w2 = w1' @ m' @ w2' \<and> CHR ''('' = CHR ''('' \<and> X # CHR '')'' # nl = X' # CHR '')'' # nl'"
    by (rule prefix_unique[where P = "\<lambda>c. c \<noteq> CHR ''(''", OF np np' _ _ e2]) simp_all
  show ?thesis using aa cdeq u2 by simp
qed

lemma parse_sound:
  assumes "parse_pitcher_entry e = Some r"
  shows "\<exists>a w0 cd w1 m w2 X nl. e = a @ w0 @ cd @ w1 @ m @ w2 @ CHR ''('' # X # CHR '')'' # nl
     \<and> entry_shape a w0 cd w1 m w2 X nl
     \<and> r = \<lparr>handedness = [X], pitcher_name = strip m,
            formatted_opponent = (if a = ''@'' then ''@'' else ''v'') @ '' '' @ cd\<rparr>"
proof -
  from assms obtain j rest G tl where ms: "matches pattern (0, e, []) = (j, rest, G) # tl"
    and r: "r = \<lparr>handedness = match_group (map_of G) 4, pitcher_name = strip (match_group (map_of G) 3),
            formatted_opponent = (if map_of G 1 = Some ''@'' then ''@'' else ''v'') @ '' '' @ match_group (map_of G) 2\<rparr>"
    by (auto simp: parse_pitcher_entry_def re_match_def split: list.splits)
  then have "(j, rest, G) \<in> set (matches pattern (0, e, []))" by simp
  from pattern_sound[OF this] obtain a w0 cd w1 m w2 X where
    e: "e = a @ w0 @ cd @ w1 @ m @ w2 @ CHR ''('' # X # CHR '')'' # rest"
    and sh: "entry_shape a w0 cd w1 m w2 X rest"
    and G: "G = [(4, [X]), (3, m), (2, cd)] @ (if a = ''@'' then [(1, ''@'')] else [])"
    by blast
  have "r = \<lparr>handedness = [X], pitcher_name = strip m,
            formatted_opponent = (if a = ''@'' then ''@'' else ''v'') @ '' '' @ cd\<rparr>"
    using r G by (simp add: match_group_def)
  with e sh show ?thesis by blast
qed

lemma parse_complete:
  assumes sh: "entry_shape a w0 cd w1 m w2 X nl"
  shows "parse_pitcher_entry (a @ w0 @ cd @ w1 @ m @ w2 @ CHR ''('' # X # CHR '')'' # nl)
     = Some \<lparr>handedness = [X], pitcher_name = strip m,
            formatted_opponent = (if a = ''@'' then ''@'' else ''v'') @ '' '' @ cd\<rparr>"
proof -
  let ?e = "a @ w0 @ cd @ w1 @ m @ w2 @ CHR ''('' # X # CHR '')'' # nl"
  from pattern_complete[OF sh] obtain t ts where "matches pattern (0, ?e, []) = t # ts"
    by (cases "matches pattern (0, ?e, [])") auto
  then obtain r where r: "parse_pitcher_entry ?e = Some r"
    by (cases t) (simp add: parse_pitcher_entry_def re_match_def)
  from parse_sound[OF r] obtain a' w0' cd' w1' m' w2' X' nl' where
    e: "?e = a' @ w0' @ cd' @ w1' @ m' @ w2' @ CHR ''('' # X' # CHR '')'' # nl'"
    and sh': "entry_shape a' w0' cd' w1' m' w2' X' nl'"
    and r': "r = \<lparr>handedness = [X'], pitcher_name = strip m',
            formatted_opponent = (if a' = ''@'' then ''@'' else ''v'') @ '' '' @ cd'\<rparr>"
    by blast
  from shape_unique[OF sh sh' e] have u: "a = a'" "cd = cd'" "w1 @ m @ w2 = w1' @ m' @ w2'" "X = X'"
    by simp_all
  have "strip m' = strip (w1' @ m' @ w2')"
    using sh' by (simp add: strip_spaces entry_shape_def)
  also have "\<dots> = strip (w1 @ m @ w2)" by (simp only: u(3))
  also have "\<dots> = strip m" using sh by (simp add: strip_spaces entry_shape_def)
  finally show ?thesis using r r' u by simp
qed

lemma parse_paren:
  assumes "parse_pitcher_entry e = Some r"
  shows "\<exists>P X nl. e = P @ CHR ''('' # X # CHR '')'' # nl \<and> (\<forall>c\<in>set P. c \<noteq> CHR ''('')
     \<and> (nl = [] \<or> nl = [CHR 0x0A])"
proof -
  from parse_sound[OF assms] obtain a w0 cd w1 m w2 X nl where
    e: "e = a @ w0 @ cd @ w1 @ m @ w2 @ CHR ''('' # X # CHR '')'' # nl"
    and sh: "entry_shape a w0 cd w1 m w2 X nl"
    by blast
  from sh have a: "a = [] \<or> a = ''@''" and sp0: "\<forall>c\<in>set w0. is_space c"
    and upc: "\<forall>c\<in>set cd. is_upper c"
    and sp1: "\<forall>c\<in>set w1. is_space c" and nm: "\<forall>c\<in>set m. is_name_char c"
    and sp2: "\<forall>c\<in>set w2. is_space c" and nl: "nl = [] \<or> nl = [CHR 0x0A]"
    unfolding entry_shape_def by blast+
  have "\<forall>c\<in>set a. c \<noteq> CHR ''(''" using a by auto
  then have "\<forall>c\<in>set (a @ w0 @ cd @ w1 @ m @ w2). c \<noteq> CHR ''(''"
    using sp0 upc sp1 nm sp2 space_not_paren upper_not_paren name_char_not_paren
    by (auto simp: ball_Un)
  moreover have "e = (a @ w0 @ cd @ w1 @ m @ w2) @ CHR ''('' # X # CHR '')'' # nl"
    using e by simp
  ultimately show ?thesis using nl by blast
qed


section \<open>Facts about the loops and the dates\<close>

text \<open>The same \<open>datetime\<close>, with the bound compared on integers, for evaluation.\<close>

lemma datetime_code [code]:
  "datetime y m d =
     (if 2147483648 \<le> int y \<or> 2147483648 \<le> int m \<or> 2147483648 \<le> int d
      then Inl OverflowError
      else if 1 \<le> y \<and> y \<le> 9999 \<and> 1 \<le> m \<and> m \<le> 12 \<and> 1 \<le> d \<and> d \<le> days_in_month y m
      then Inr (y, m, d) else Inl ValueError)"
  by (simp add: datetime_def)

lemma row_loop_filter:
  "row_loop dm names c items =
     filter (\<lambda>r. names = [] \<or> lower (Pitcher r) \<in> set names) (row_loop dm [] c items)"
  by (induction items arbitrary: c) (auto split: option.splits)

lemma table_loop_filter:
  "table_loop dm names trs =
     filter (\<lambda>r. names = [] \<or> lower (Pitcher r) \<in> set names) (table_loop dm [] trs)"
proof (induction trs)
  case Nil
  then show ?case by simp
next
  case (Cons tr trs)
  show ?case
    by (simp only: table_loop.simps filter_append Cons.IH[symmetric] row_loop_filter[symmetric])
qed

lemma row_loop_entries:
  "map (\<lambda>r. (Handedness r, Pitcher r, Opponent r)) (row_loop dm [] c items) =
     map (\<lambda>e. (handedness e, pitcher_name e, formatted_opponent e))
       (List.map_filter parse_pitcher_entry items)"
  by (induction items arbitrary: c) (auto split: option.splits)

lemma table_loop_entries:
  "map (\<lambda>r. (Handedness r, Pitcher r, Opponent r)) (table_loop dm [] trs) =
     map (\<lambda>e. (handedness e, pitcher_name e, formatted_opponent e))
       (List.map_filter parse_pitcher_entry
          (concat (map (\<lambda>tr. map get_text (find_all ''td'' tr)) trs)))"
proof (induction trs)
  case Nil
  then show ?case by simp
next
  case (Cons tr trs)
  have "List.map_filter f (xs @ ys) = List.map_filter f xs @ List.map_filter f ys"
    for f :: "string \<Rightarrow> parsed_entry option" and xs ys
    by (simp add: List.map_filter_def)
  then show ?case using Cons.IH by (simp add: row_loop_entries)
qed

lemma row_loop_member:
  "r \<in> set (row_loop dm names c items) \<longleftrightarrow>
     (\<exists>j e. j < length items \<and> parse_pitcher_entry (items ! j) = Some e
        \<and> (names = [] \<or> lower (pitcher_name e) \<in> set names)
        \<and> r = entry_record (get_default dm (c + j - 1) ''Unknown'') e)"
proof (induction items arbitrary: c)
  case Nil
  then show ?case by simp
next
  case (Cons item items)
  let ?ok = "\<lambda>e. names = [] \<or> lower (pitcher_name e) \<in> set names"
  let ?R = "\<lambda>c items. \<exists>j e. j < length items \<and> parse_pitcher_entry (items ! j) = Some e
        \<and> ?ok e \<and> r = entry_record (get_default dm (c + j - 1) ''Unknown'') e"
  have split: "?R c (item # items) \<longleftrightarrow>
     (\<exists>e. parse_pitcher_entry item = Some e \<and> ?ok e
        \<and> r = entry_record (get_default dm (c - 1) ''Unknown'') e) \<or> ?R (Suc c) items"
    (is "?A \<longleftrightarrow> ?B \<or> ?C")
  proof
    assume ?A
    then obtain j e where j: "j < length (item # items)"
      "parse_pitcher_entry ((item # items) ! j) = Some e" "?ok e"
      "r = entry_record (get_default dm (c + j - 1) ''Unknown'') e" by blast
    show "?B \<or> ?C"
    proof (cases j)
      case 0
      then show ?thesis using j by auto
    next
      case (Suc k)
      then have "k < length items \<and> parse_pitcher_entry (items ! k) = Some e \<and> ?ok e
        \<and> r = entry_record (get_default dm (Suc c + k - 1) ''Unknown'') e"
        using j by simp
      then show ?thesis by blast
    qed
  next
    assume "?B \<or> ?C"
    then show ?A
    proof
      assume ?B
      then obtain e where "parse_pitcher_entry item = Some e" "?ok e"
        "r = entry_record (get_default dm (c - 1) ''Unknown'') e" by blast
      then have "0 < length (item # items) \<and> parse_pitcher_entry ((item # items) ! 0) = Some e
        \<and> ?ok e \<and> r = entry_record (get_default dm (c + 0 - 1) ''Unknown'') e" by simp
      then show ?A by blast
    next
      assume ?C
      then obtain k e where "k < length items" "parse_pitcher_entry (items ! k) = Some e" "?ok e"
        "r = entry_record (get_default dm (Suc c + k - 1) ''Unknown'') e" by blast
      then have "Suc k < length (item # items) \<and> parse_pitcher_entry ((item # items) ! Suc k) = Some e
        \<and> ?ok e \<and> r = entry_record (get_default dm (c + Suc k - 1) ''Unknown'') e" by simp
      then show ?A by blast
    qed
  qed
  have "r \<in> set (row_loop dm names c (item # items)) \<longleftrightarrow>
     (\<exists>e. parse_pitcher_entry item = Some e \<and> ?ok e
        \<and> r = entry_record (get_default dm (c - 1) ''Unknown'') e)
     \<or> r \<in> set (row_loop dm names (Suc c) items)"
  proof (cases "parse_pitcher_entry item")
    case None
    then show ?thesis by simp
  next
    case (Some e)
    then show ?thesis by (auto simp: entry_record_def)
  qed
  then show ?case unfolding split Cons.IH by simp
qed

lemma header_loop_lookup:
  assumes "header_loop now idx ths dates = Inr dm"
  shows "(idx \<le> i \<and> i < idx + length ths \<longrightarrow>
            (\<exists>v. header_date now (get_text (ths ! (i - idx))) = Inr v
               \<and> dm i = (case v of None \<Rightarrow> dates i | Some d \<Rightarrow> Some d)))
       \<and> (\<not> (idx \<le> i \<and> i < idx + length ths) \<longrightarrow> dm i = dates i)"
  using assms
proof (induction ths arbitrary: idx dates)
  case Nil
  then show ?case by auto
next
  case (Cons th ths)
  from Cons.prems obtain v where v: "header_date now (get_text th) = Inr v"
    by (cases "header_date now (get_text th)") auto
  let ?dates = "case v of None \<Rightarrow> dates | Some d \<Rightarrow> dates(idx \<mapsto> d)"
  have loop: "header_loop now (Suc idx) ths ?dates = Inr dm"
    using Cons.prems v by (cases v) auto
  note ih = Cons.IH[OF loop]
  show ?case
  proof (cases "i = idx")
    case True
    then have "dm i = ?dates i" using ih by auto
    then have "dm i = (case v of None \<Rightarrow> dates i | Some d \<Rightarrow> Some d)"
      using True by (cases v) auto
    then show ?thesis using True v by auto
  next
    case False
    then have same: "?dates i = dates i" by (cases v) auto
    show ?thesis
    proof (cases "idx \<le> i \<and> i < idx + length (th # ths)")
      case True
      then have r: "Suc idx \<le> i \<and> i < Suc idx + length ths" using False by auto
      then obtain v' where "header_date now (get_text (ths ! (i - Suc idx))) = Inr v'"
        "dm i = (case v' of None \<Rightarrow> ?dates i | Some d \<Rightarrow> Some d)"
        using ih by blast
      moreover have "(th # ths) ! (i - idx) = ths ! (i - Suc idx)"
        using r by (simp add: nth_Cons')
      ultimately show ?thesis using True by (cases v') (simp_all add: same)
    next
      case False
      then have "\<not> (Suc idx \<le> i \<and> i < Suc idx + length ths)" by auto
      then have "dm i = ?dates i" using ih by blast
      then show ?thesis using False same by auto
    qed
  qed
qed

lemma date_map_lookup:
  assumes "header_loop now 1 (tl ths) Map.empty = Inr dm"
  shows "(1 \<le> k \<and> k < length ths \<longrightarrow> header_date now (get_text (ths ! k)) = Inr (dm k))
       \<and> (\<not> (1 \<le> k \<and> k < length ths) \<longrightarrow> dm k = None)"
proof (cases "1 \<le> k \<and> k < length ths")
  case True
  then have r: "1 \<le> k \<and> k < 1 + length (tl ths)" by auto
  have n: "tl ths ! (k - 1) = ths ! k" using True by (cases ths; cases k) auto
  from header_loop_lookup[OF assms, of k] r obtain v where
    "header_date now (get_text (tl ths ! (k - 1))) = Inr v"
    "dm k = (case v of None \<Rightarrow> Map.empty k | Some d \<Rightarrow> Some d)" by blast
  then have "header_date now (get_text (ths ! k)) = Inr (dm k)"
    using n by (cases v) auto
  then show ?thesis using True by simp
next
  case False
  then have "\<not> (1 \<le> k \<and> k < 1 + length (tl ths))" by auto
  then have "dm k = None" using header_loop_lookup[OF assms, of k] by auto
  then show ?thesis using False by auto
qed

lemma grid_rows:
  "extract_pitcher_starts grid_clock grid_doc [] = Inr ([], [john_row, jane_row, max_row])"
  by code_simp

lemma table_loop_member:
  "r \<in> set (table_loop dm names trs) \<longleftrightarrow>
     (\<exists>tr\<in>set trs. r \<in> set (row_loop dm names 1 (map get_text (find_all ''td'' tr))))"
  by (induction trs) auto

lemma table_loop_dates:
  assumes "r \<in> set (table_loop dm names trs)"
  shows "Date r = ''Unknown'' \<or> (\<exists>k. dm k = Some (Date r))"
proof -
  from assms obtain tr where "r \<in> set (row_loop dm names 1 (map get_text (find_all ''td'' tr)))"
    unfolding table_loop_member by blast
  then obtain j e where "r = entry_record (get_default dm (1 + j - 1) ''Unknown'') e"
    unfolding row_loop_member by blast
  then have "Date r = get_default dm j ''Unknown''" by (simp add: entry_record_def)
  then show ?thesis by (cases "dm j") (auto simp: get_default_def)
qed

lemma decimal_digits: "decimal n \<noteq> [] \<and> (\<forall>c\<in>set (decimal n). is_digit c)"
proof (induction n rule: decimal.induct)
  case (1 n)
  have d: "is_digit (char_of (48 + k))" if "k < 10" for k :: nat
    using that by (simp add: is_digit_def code_def)
  show ?case
  proof (cases "n < 10")
    case True
    then show ?thesis using d[of n] by (subst decimal.simps, subst (2) decimal.simps) simp
  next
    case False
    have "n mod 10 < 10" by simp
    then have "is_digit (char_of (48 + n mod 10))" by (rule d)
    then show ?thesis using 1 False by (subst decimal.simps, subst (2) decimal.simps) simp
  qed
qed

lemma zfill_hd_digit: "\<exists>c s. zfill w (decimal n) = c # s \<and> is_digit c"
proof (cases "w - length (decimal n)")
  case 0
  obtain c s where "decimal n = c # s" using decimal_digits[of n] by (cases "decimal n") auto
  then show ?thesis using 0 decimal_digits[of n] by (auto simp: zfill_def)
next
  case (Suc k)
  have "is_digit CHR ''0''" by (simp add: is_digit_def code_def)
  then show ?thesis using Suc by (auto simp: zfill_def)
qed

lemma strftime_hd_digit: "\<exists>c s. strftime dt = c # s \<and> is_digit c"
proof -
  obtain y m d where dt: "dt = (y, m, d)" by (cases dt) auto
  from zfill_hd_digit[of 4 y] obtain c s where "zfill 4 (decimal y) = c # s" "is_digit c" by blast
  then show ?thesis by (simp add: strftime_def dt)
qed

lemma header_date_digit:
  assumes "header_date now t = Inr (Some s)"
  shows "\<exists>c u. s = c # u \<and> is_digit c"
proof -
  from assms obtain dt where "s = strftime dt"
    by (auto simp: header_date_def date_of_month_day_def Let_def
        split: option.splits list.splits sum.splits if_splits)
  then show ?thesis using strftime_hd_digit by simp
qed

lemma digit_before_unknown: "is_digit c \<Longrightarrow> c # s < ''Unknown''"
  by (simp add: is_digit_def code_def less_char_def)

lemma date_mapping_digit:
  assumes "extract_dates_from_headers now soup = Inr dm" and "dm k = Some s"
  shows "\<exists>c t. s = c # t \<and> is_digit c"
proof -
  from assms(1) obtain tr where
    l: "header_loop now 1 (tl (find_all ''th'' tr)) Map.empty = Inr dm"
    by (auto simp: extract_dates_from_headers_def split: sum.splits)
  from date_map_lookup[OF l, of k] assms(2)
  have "header_date now (get_text (find_all ''th'' tr ! k)) = Inr (Some s)"
    by (cases "1 \<le> k \<and> k < length (find_all ''th'' tr)") auto
  then show ?thesis by (rule header_date_digit)
qed

lemma extract_cases:
  assumes "extract_pitcher_starts now soup names = Inr (ws, rows)"
  shows "rows = [] \<or> (\<exists>table_div table dm.
     find_class ''div'' ''table-scroll'' soup = Some table_div
     \<and> find_tag ''table'' table_div = Some table
     \<and> extract_dates_from_headers now soup = Inr dm
     \<and> rows = sort_key Date (table_loop dm names (tl (find_all ''tr'' table))))"
  using assms by (auto simp: extract_pitcher_starts_def split: option.splits sum.splits)


lemma grid_div_found: "find_class ''div'' ''table-scroll'' grid_doc = Some grid_div"
  by code_simp

lemma grid_table_found: "find_tag ''table'' grid_div = Some grid_table"
  by code_simp

lemma grid_header_found: "header_row grid_doc = Inr grid_header_row"
  by code_simp

lemma grid_header_cells:
  "map get_text (find_all ''th'' grid_header_row) = [''Team'', ''Mon 3/10'', ''Tue 2/30'']"
  by code_simp

lemma grid_header_dates:
  "header_date grid_clock ''Mon 3/10'' = Inr (Some ''2026-03-10'')"
  "header_date grid_clock ''Tue 2/30'' = Inr None"
  by code_simp+

lemma grid_dates:
  "extract_dates_from_headers grid_clock grid_doc = Inr [1 \<mapsto> ''2026-03-10'']"
proof -
  obtain a b c where ths: "find_all ''th'' grid_header_row = [a, b, c]"
    and t: "get_text b = ''Mon 3/10''" "get_text c = ''Tue 2/30''"
    using grid_header_cells by (auto simp: map_eq_Cons_conv)
  show ?thesis
    by (simp add: extract_dates_from_headers_def grid_header_found ths t grid_header_dates)
qed

lemma grid_encounter:
  "table_loop [1 \<mapsto> ''2026-03-10''] [] (tl (find_all ''tr'' grid_table)) =
     [jane_row, john_row, max_row]"
  by code_simp

section \<open>Facts about the date pattern\<close>

declare search_from.simps [simp del]





lemma split_no_sep: "sep \<notin> set v \<Longrightarrow> split sep v = [v]"
  by (induction v) auto

lemma split_at_sep: "sep \<notin> set u \<Longrightarrow> split sep (u @ sep # v) = u # split sep v"
  by (induction u) auto

lemma digit_not_slash: "is_digit c \<Longrightarrow> c \<noteq> CHR ''/''"
  by (auto simp: is_digit_def code_def)

lemma split_month_day:
  assumes "\<forall>c\<in>set mo. is_digit c" "\<forall>c\<in>set da. is_digit c"
  shows "split CHR ''/'' (mo @ CHR ''/'' # da) = [mo, da]"
proof -
  have "CHR ''/'' \<notin> set mo" "CHR ''/'' \<notin> set da"
    using assms digit_not_slash by blast+
  then show ?thesis by (simp add: split_at_sep split_no_sep)
qed


lemma date_of_month_day_eq:
  assumes "\<forall>c\<in>set mo. is_digit c" "\<forall>c\<in>set da. is_digit c"
  shows "date_of_month_day now (mo @ CHR ''/'' # da) =
     (if 4300 < length mo \<or> 4300 < length da then Inl ValueError
      else (case datetime
                  (if digits_value mo < now_month now then now_year now + 1 else now_year now)
                  (digits_value mo) (digits_value da) of
              Inl e \<Rightarrow> Inl e
            | Inr date_obj \<Rightarrow> Inr (strftime date_obj)))"
  by (simp add: date_of_month_day_def split_month_day[OF assms] py_int_def Let_def)




lemma mon_3_10_matches:
  "matches date_pattern (0, ''Mon 3/10'', []) \<noteq> []
   \<and> hd (matches date_pattern (0, ''Mon 3/10'', [])) = (8, [], [(2, ''3/10''), (1, ''Mon'')])"
  by code_simp

lemma mon_3_10_search:
  "re_search date_pattern ''Mon 3/10'' = Some (map_of [(2, ''3/10''), (1, ''Mon'')])"
proof -
  obtain x xs where c: "matches date_pattern (0, ''Mon 3/10'', []) = x # xs"
    using mon_3_10_matches by (cases "matches date_pattern (0, ''Mon 3/10'', [])") auto
  then have "x = (8, [], [(2, ''3/10''), (1, ''Mon'')])" using mon_3_10_matches by simp
  then show ?thesis using c by (simp add: re_search_def search_from.simps)
qed

lemma mon_3_10_example:
  assumes "1 \<le> (if 3 < C then Y + 1 else Y)" and "(if 3 < C then Y + 1 else Y) \<le> 9999"
  shows "header_date \<lparr>now_year = Y, now_month = C\<rparr> ''Mon 3/10'' =
    Inr (Some (strftime (if 3 < C then Y + 1 else Y, 3, 10)))"
proof -
  have dg: "\<forall>c\<in>set ''3''. is_digit c" "\<forall>c\<in>set ''10''. is_digit c"
    by (simp_all add: is_digit_def code_def)
  have v: "digits_value ''3'' = 3" "digits_value ''10'' = 10"
    by (simp_all add: digits_value_def code_def)
  have d: "days_in_month y 3 = 31" for y by (simp add: days_in_month_def)
  have "date_of_month_day \<lparr>now_year = Y, now_month = C\<rparr> (''3'' @ CHR ''/'' # ''10'') =
      Inr (strftime (if 3 < C then Y + 1 else Y, 3, 10))"
    unfolding date_of_month_day_eq[OF dg] using assms
    by (auto simp: v datetime_def d split: if_splits)
  then show ?thesis
    by (simp add: header_date_def mon_3_10_search match_group_def)
qed

lemma day_overflow_matches:
  "matches date_pattern (0, ''Mon 3/2147483648'', []) \<noteq> []
   \<and> hd (matches date_pattern (0, ''Mon 3/2147483648'', [])) =
       (16, [], [(2, ''3/2147483648''), (1, ''Mon'')])"
  by code_simp

lemma day_overflow_raises:
  "header_date now ''Mon 3/2147483648'' = Inl OverflowError"
proof -
  obtain x xs where c: "matches date_pattern (0, ''Mon 3/2147483648'', []) = x # xs"
    using day_overflow_matches by (cases "matches date_pattern (0, ''Mon 3/2147483648'', [])") auto
  then have "x = (16, [], [(2, ''3/2147483648''), (1, ''Mon'')])"
    using day_overflow_matches by simp
  then have s: "re_search date_pattern ''Mon 3/2147483648'' =
      Some (map_of [(2, ''3/2147483648''), (1, ''Mon'')])"
    using c by (simp add: re_search_def search_from.simps)
  have dg: "\<forall>c\<in>set ''3''. is_digit c" "\<forall>c\<in>set ''2147483648''. is_digit c"
    by (simp_all add: is_digit_def code_def)
  have v: "digits_value ''2147483648'' = 2147483648"
    by (simp add: digits_value_def code_def)
  have "date_of_month_day now (''3'' @ CHR ''/'' # ''2147483648'') = Inl OverflowError"
    unfolding date_of_month_day_eq[OF dg] by (simp add: v datetime_def)
  then show ?thesis by (simp add: header_date_def s match_group_def)
qed


section \<open>Missing structure\<close>

text \<open>
  C1 (fails on the code): a document that has the container and the table but no
  \<open>tbody\<close> is not answered with an empty result and a warning; the header lookup
  raises AttributeError and the exception leaves \<open>extract_pitcher_starts\<close>.
\<close>

theorem missing_tbody_raises:
  "extract_pitcher_starts now no_tbody_doc player_names = Inl AttributeError"
  by code_simp

section \<open>Entries without a name\<close>

text \<open>
  C9: the entry \<open>NYY  (L)\<close> is accepted, its name group holds only whitespace and the
  pitcher name is the empty string; with the empty player filter the record is emitted.
\<close>

theorem empty_name_accepted:
  "parse_pitcher_entry ''NYY  (L)'' =
     Some \<lparr>handedness = ''L'', pitcher_name = [], formatted_opponent = ''v NYY''\<rparr>
   \<and> extract_pitcher_starts \<lparr>now_year = 2025, now_month = 4\<rparr> no_name_doc [] =
     Inr ([], [\<lparr>Date = ''Unknown'', Handedness = ''L'', Pitcher = [], Opponent = ''v NYY''\<rparr>])"
  by code_simp

section \<open>Text after the handedness marker\<close>

text \<open>
  C7 (as the code has it): when an accepted entry ends with the closing parenthesis, adding
  any text other than a single line feed makes \<open>parse_pitcher_entry\<close> return
  \<open>None\<close>.
\<close>

theorem trailing_text_rejected:
  assumes "parse_pitcher_entry s \<noteq> None" and "last s = CHR '')''"
    and "t \<noteq> []" and "t \<noteq> [CHR 0x0A]"
  shows "parse_pitcher_entry (s @ t) = None"
proof (rule ccontr)
  assume "parse_pitcher_entry (s @ t) \<noteq> None"
  then obtain r' where r': "parse_pitcher_entry (s @ t) = Some r'" by blast
  from assms(1) obtain r where r: "parse_pitcher_entry s = Some r" by blast
  from parse_paren[OF r] obtain P X nl where
    s: "s = P @ CHR ''('' # X # CHR '')'' # nl" and P: "\<forall>c\<in>set P. c \<noteq> CHR ''(''"
    and nl: "nl = [] \<or> nl = [CHR 0x0A]" by blast
  have "nl = []"
  proof (rule ccontr)
    assume "nl \<noteq> []"
    then have "nl = [CHR 0x0A]" using nl by simp
    then have "last s = CHR 0x0A" using s by simp
    then show False using assms(2) by simp
  qed
  then have st: "s @ t = P @ CHR ''('' # (X # CHR '')'' # t)" using s by simp
  from parse_paren[OF r'] obtain P' X' nl' where
    s': "s @ t = P' @ CHR ''('' # (X' # CHR '')'' # nl')" and P': "\<forall>c\<in>set P'. c \<noteq> CHR ''(''"
    and nl': "nl' = [] \<or> nl' = [CHR 0x0A]" by auto
  have eq: "P @ CHR ''('' # (X # CHR '')'' # t) = P' @ CHR ''('' # (X' # CHR '')'' # nl')"
    using st s' by simp
  have "P = P' \<and> CHR ''('' = CHR ''('' \<and> X # CHR '')'' # t = X' # CHR '')'' # nl'"
    by (rule prefix_unique[where P = "\<lambda>c. c \<noteq> CHR ''(''", OF P P' _ _ eq]) simp_all
  then have "t = nl'" by simp
  then show False using nl' assms(3,4) by simp
qed

theorem trailing_text_rejected_witness:
  "parse_pitcher_entry ''NYY John Smith (L)'' \<noteq> None \<and> last ''NYY John Smith (L)'' = CHR '')''
   \<and> parse_pitcher_entry (''NYY John Smith (L)'' @ '' x'') = None"
proof -
  have h: "parse_pitcher_entry ''NYY John Smith (L)'' \<noteq> None" by code_simp
  have l: "last ''NYY John Smith (L)'' = CHR '')''" by simp
  show ?thesis
    using h l trailing_text_rejected[OF h l, of "'' x''"] by simp
qed

text \<open>C7 as stated fails: one trailing line feed is accepted, since \<open>$\<close> also matches
  just before a final line feed.\<close>

theorem trailing_newline_accepted:
  "parse_pitcher_entry ''NYY John Smith (L)'' =
     Some \<lparr>handedness = ''L'', pitcher_name = ''John Smith'', formatted_opponent = ''v NYY''\<rparr>
   \<and> parse_pitcher_entry (''NYY John Smith (L)'' @ [CHR 0x0A]) =
     Some \<lparr>handedness = ''L'', pitcher_name = ''John Smith'', formatted_opponent = ''v NYY''\<rparr>"
  by code_simp

section \<open>Away entries\<close>

text \<open>
  C8 (as the code has it): an entry that starts with the away marker, followed by optional
  whitespace, three upper-case letters, a non-empty name of letters and whitespace and the
  handedness marker is accepted, and the opponent is the code after \<open>@\<close> and a space.
\<close>

theorem away_entry_parsed:
  assumes "\<forall>c\<in>set ws. is_space c" and "length cd = 3" and "\<forall>c\<in>set cd. is_upper c"
    and "nm \<noteq> []" and "\<forall>c\<in>set nm. is_name_char c" and "X = CHR ''L'' \<or> X = CHR ''R''"
  shows "parse_pitcher_entry (''@'' @ ws @ cd @ nm @ ''('' @ [X] @ '')'') =
     Some \<lparr>handedness = [X], pitcher_name = strip nm, formatted_opponent = ''@ '' @ cd\<rparr>"
proof -
  have "entry_shape ''@'' ws cd [] nm [] X []"
    using assms by (simp add: entry_shape_def)
  from parse_complete[OF this] show ?thesis by simp
qed

theorem away_entry_parsed_witness:
  "parse_pitcher_entry ''@ NYY John Smith (L)'' =
     Some \<lparr>handedness = ''L'', pitcher_name = ''John Smith'', formatted_opponent = ''@ NYY''\<rparr>"
proof -
  have 1: "\<forall>c\<in>set '' ''. is_space c" by (simp add: is_space_def code_def)
  have 2: "length ''NYY'' = 3" by simp
  have 3: "\<forall>c\<in>set ''NYY''. is_upper c" by (simp add: is_upper_def code_def)
  have 4: "'' John Smith '' \<noteq> []" by simp
  have 5: "\<forall>c\<in>set '' John Smith ''. is_name_char c"
    by (simp add: is_name_char_def is_upper_def is_lower_def is_space_def code_def)
  have 6: "CHR ''L'' = CHR ''L'' \<or> CHR ''L'' = CHR ''R''" by simp
  have s: "strip '' John Smith '' = ''John Smith''"
    by (simp add: strip_def is_space_def code_def)
  show ?thesis
    using away_entry_parsed[OF 1 2 3 4 5 6] s by simp
qed

text \<open>C8 as stated fails: whitespace before the away marker is not accepted.\<close>

theorem leading_space_rejected:
  "parse_pitcher_entry '' @ NYY John Smith (L)'' = None"
  by code_simp

section \<open>Column indices and dates\<close>

text \<open>
  C4: when the container, the table and the header row are found and the extraction returns,
  the date map holds at index \<open>i\<close>, counted from 1, the date of the \<open>i\<close>-th header cell
  after the first (label) cell, and nothing at any other index; and a row is returned exactly
  when it comes from a cell at the 1-based column index \<open>k\<close> of a data row (any row of the
  table but the first) whose text parses and passes the player filter, with the map's entry
  at \<open>k - 1\<close> as its date, or \<open>Unknown\<close> when the map has no such entry.
\<close>

theorem column_date_alignment:
  assumes "find_class ''div'' ''table-scroll'' soup = Some table_div"
    and "find_tag ''table'' table_div = Some table"
    and "header_row soup = Inr tr"
    and "extract_pitcher_starts now soup player_names = Inr (ws, rows)"
  shows "\<exists>dates. extract_dates_from_headers now soup = Inr dates
    \<and> (\<forall>i. 1 \<le> i \<and> i \<le> length (tl (find_all ''th'' tr)) \<longrightarrow>
           header_date now (get_text (tl (find_all ''th'' tr) ! (i - 1))) = Inr (dates i))
    \<and> (\<forall>i. \<not> (1 \<le> i \<and> i \<le> length (tl (find_all ''th'' tr))) \<longrightarrow> dates i = None)
    \<and> (\<forall>r. r \<in> set rows \<longleftrightarrow>
          (\<exists>row k e. row \<in> set (tl (find_all ''tr'' table))
             \<and> 1 \<le> k \<and> k \<le> length (find_all ''td'' row)
             \<and> parse_pitcher_entry (get_text (find_all ''td'' row ! (k - 1))) = Some e
             \<and> (player_names = [] \<or> lower (pitcher_name e) \<in> set player_names)
             \<and> r = entry_record
                   (case dates (k - 1) of None \<Rightarrow> ''Unknown'' | Some d \<Rightarrow> d) e))"
proof -
  let ?ths = "tl (find_all ''th'' tr)"
  let ?ok = "\<lambda>e. player_names = [] \<or> lower (pitcher_name e) \<in> set player_names"
  from assms obtain dates where
    e: "extract_dates_from_headers now soup = Inr dates"
    and rows: "rows = sort_key Date (table_loop dates player_names (tl (find_all ''tr'' table)))"
    by (auto simp: extract_pitcher_starts_def split: sum.splits)
  from e assms(3) have l: "header_loop now 1 ?ths Map.empty = Inr dates"
    by (simp add: extract_dates_from_headers_def)
  have inside: "header_date now (get_text (?ths ! (i - 1))) = Inr (dates i)"
    if "1 \<le> i \<and> i \<le> length ?ths" for i
  proof -
    from that have "1 \<le> i \<and> i < 1 + length ?ths" by auto
    with header_loop_lookup[OF l, of i] obtain v where
      "header_date now (get_text (?ths ! (i - 1))) = Inr v"
      "dates i = (case v of None \<Rightarrow> Map.empty i | Some d \<Rightarrow> Some d)" by blast
    then show ?thesis by (cases v) auto
  qed
  have outside: "dates i = None" if "\<not> (1 \<le> i \<and> i \<le> length ?ths)" for i
  proof -
    from that have "\<not> (1 \<le> i \<and> i < 1 + length ?ths)" by auto
    with header_loop_lookup[OF l, of i] show ?thesis by auto
  qed
  have member: "r \<in> set rows \<longleftrightarrow>
          (\<exists>row k e. row \<in> set (tl (find_all ''tr'' table))
             \<and> 1 \<le> k \<and> k \<le> length (find_all ''td'' row)
             \<and> parse_pitcher_entry (get_text (find_all ''td'' row ! (k - 1))) = Some e
             \<and> ?ok e
             \<and> r = entry_record
                   (case dates (k - 1) of None \<Rightarrow> ''Unknown'' | Some d \<Rightarrow> d) e)"
    (is "?L \<longleftrightarrow> ?R") for r
  proof
    assume ?L
    then have "r \<in> set (table_loop dates player_names (tl (find_all ''tr'' table)))"
      using rows by simp
    then obtain row where row: "row \<in> set (tl (find_all ''tr'' table))"
      and "r \<in> set (row_loop dates player_names 1 (map get_text (find_all ''td'' row)))"
      unfolding table_loop_member by blast
    then obtain j e where j: "j < length (find_all ''td'' row)"
      and p: "parse_pitcher_entry (map get_text (find_all ''td'' row) ! j) = Some e"
      and ok: "?ok e"
      and r: "r = entry_record (get_default dates (1 + j - 1) ''Unknown'') e"
      unfolding row_loop_member by auto
    have "1 \<le> Suc j \<and> Suc j \<le> length (find_all ''td'' row)
       \<and> parse_pitcher_entry (get_text (find_all ''td'' row ! (Suc j - 1))) = Some e \<and> ?ok e
       \<and> r = entry_record
             (case dates (Suc j - 1) of None \<Rightarrow> ''Unknown'' | Some d \<Rightarrow> d) e"
      using j p ok r by (simp add: get_default_def)
    with row show ?R by blast
  next
    assume ?R
    then obtain row k e where row: "row \<in> set (tl (find_all ''tr'' table))"
      and k: "1 \<le> k" "k \<le> length (find_all ''td'' row)"
      and p: "parse_pitcher_entry (get_text (find_all ''td'' row ! (k - 1))) = Some e"
      and ok: "?ok e"
      and r: "r = entry_record
                (case dates (k - 1) of None \<Rightarrow> ''Unknown'' | Some d \<Rightarrow> d) e"
      by blast
    have "k - 1 < length (map get_text (find_all ''td'' row))
       \<and> parse_pitcher_entry (map get_text (find_all ''td'' row) ! (k - 1)) = Some e \<and> ?ok e
       \<and> r = entry_record (get_default dates (1 + (k - 1) - 1) ''Unknown'') e"
      using k p ok r by (auto simp: get_default_def)
    then have "r \<in> set (row_loop dates player_names 1 (map get_text (find_all ''td'' row)))"
      unfolding row_loop_member by blast
    with row have "r \<in> set (table_loop dates player_names (tl (find_all ''tr'' table)))"
      unfolding table_loop_member by blast
    then show ?L using rows by simp
  qed
  from e inside outside member show ?thesis by blast
qed

theorem column_date_alignment_witness:
  "find_class ''div'' ''table-scroll'' grid_doc = Some grid_div
   \<and> find_tag ''table'' grid_div = Some grid_table
   \<and> header_row grid_doc = Inr grid_header_row
   \<and> extract_pitcher_starts grid_clock grid_doc [] = Inr ([], [john_row, jane_row, max_row])
   \<and> (\<exists>dates. extract_dates_from_headers grid_clock grid_doc = Inr dates
    \<and> (\<forall>i. 1 \<le> i \<and> i \<le> length (tl (find_all ''th'' grid_header_row)) \<longrightarrow>
           header_date grid_clock (get_text (tl (find_all ''th'' grid_header_row) ! (i - 1))) =
             Inr (dates i))
    \<and> (\<forall>i. \<not> (1 \<le> i \<and> i \<le> length (tl (find_all ''th'' grid_header_row))) \<longrightarrow>
           dates i = None)
    \<and> (\<forall>r. r \<in> set [john_row, jane_row, max_row] \<longleftrightarrow>
          (\<exists>row k e. row \<in> set (tl (find_all ''tr'' grid_table))
             \<and> 1 \<le> k \<and> k \<le> length (find_all ''td'' row)
             \<and> parse_pitcher_entry (get_text (find_all ''td'' row ! (k - 1))) = Some e
             \<and> (([]::string list) = [] \<or> lower (pitcher_name e) \<in> set [])
             \<and> r = entry_record
                   (case dates (k - 1) of None \<Rightarrow> ''Unknown'' | Some d \<Rightarrow> d) e)))"
  by (rule conjI[OF grid_div_found conjI[OF grid_table_found conjI[OF grid_header_found
        conjI[OF grid_rows
          column_date_alignment[OF grid_div_found grid_table_found grid_header_found
            grid_rows]]]]])

section \<open>The player filter\<close>

text \<open>
  C5: the result for a player filter is the result for the empty filter, restricted to the
  rows whose lower-cased pitcher name is in the filter; with the empty filter every cell
  that parses gives one row.
\<close>

theorem player_filter:
  "extract_pitcher_starts now soup player_names =
     (case extract_pitcher_starts now soup [] of
        Inl e \<Rightarrow> Inl e
      | Inr (ws, rows) \<Rightarrow>
          Inr (ws, filter (\<lambda>r. player_names = [] \<or> lower (Pitcher r) \<in> set player_names) rows))
   \<and> (\<forall>table_div table ws rows.
         find_class ''div'' ''table-scroll'' soup = Some table_div
         \<and> find_tag ''table'' table_div = Some table
         \<and> extract_pitcher_starts now soup [] = Inr (ws, rows)
         \<longrightarrow> mset (map (\<lambda>r. (Handedness r, Pitcher r, Opponent r)) rows) =
             mset (map (\<lambda>e. (handedness e, pitcher_name e, formatted_opponent e))
               (List.map_filter parse_pitcher_entry
                  (concat (map (\<lambda>tr. map get_text (find_all ''td'' tr))
                     (tl (find_all ''tr'' table)))))))"
proof
  show "extract_pitcher_starts now soup player_names =
     (case extract_pitcher_starts now soup [] of
        Inl e \<Rightarrow> Inl e
      | Inr (ws, rows) \<Rightarrow>
          Inr (ws, filter (\<lambda>r. player_names = [] \<or> lower (Pitcher r) \<in> set player_names) rows))"
    by (simp add: extract_pitcher_starts_def filter_sort table_loop_filter[of _ player_names]
        split: option.splits sum.splits)
next
  show "\<forall>table_div table ws rows.
         find_class ''div'' ''table-scroll'' soup = Some table_div
         \<and> find_tag ''table'' table_div = Some table
         \<and> extract_pitcher_starts now soup [] = Inr (ws, rows)
         \<longrightarrow> mset (map (\<lambda>r. (Handedness r, Pitcher r, Opponent r)) rows) =
             mset (map (\<lambda>e. (handedness e, pitcher_name e, formatted_opponent e))
               (List.map_filter parse_pitcher_entry
                  (concat (map (\<lambda>tr. map get_text (find_all ''td'' tr))
                     (tl (find_all ''tr'' table))))))"
  proof (intro allI impI)
    fix table_div table ws rows
    assume h: "find_class ''div'' ''table-scroll'' soup = Some table_div
         \<and> find_tag ''table'' table_div = Some table
         \<and> extract_pitcher_starts now soup [] = Inr (ws, rows)"
    then obtain dm where
      rows: "rows = sort_key Date (table_loop dm [] (tl (find_all ''tr'' table)))"
      by (auto simp: extract_pitcher_starts_def split: sum.splits)
    have "mset (map (\<lambda>r. (Handedness r, Pitcher r, Opponent r)) rows) =
      mset (map (\<lambda>r. (Handedness r, Pitcher r, Opponent r))
        (table_loop dm [] (tl (find_all ''tr'' table))))"
      unfolding rows by simp
    then show "mset (map (\<lambda>r. (Handedness r, Pitcher r, Opponent r)) rows) =
             mset (map (\<lambda>e. (handedness e, pitcher_name e, formatted_opponent e))
               (List.map_filter parse_pitcher_entry
                  (concat (map (\<lambda>tr. map get_text (find_all ''td'' tr))
                     (tl (find_all ''tr'' table))))))"
      by (simp only: table_loop_entries)
  qed
qed

theorem player_filter_witness:
  "extract_pitcher_starts grid_clock grid_doc [] = Inr ([], [john_row, jane_row, max_row])
   \<and> extract_pitcher_starts grid_clock grid_doc [''john smith''] = Inr ([], [john_row])
   \<and> mset (map (\<lambda>r. (Handedness r, Pitcher r, Opponent r)) [john_row, jane_row, max_row]) =
       mset (map (\<lambda>e. (handedness e, pitcher_name e, formatted_opponent e))
         (List.map_filter parse_pitcher_entry
            (concat (map (\<lambda>tr. map get_text (find_all ''td'' tr))
               (tl (find_all ''tr'' grid_table))))))"
proof -
  note pf = player_filter[of grid_clock grid_doc "[''john smith'']"]
  have f: "filter (\<lambda>r. [''john smith''] = [] \<or> lower (Pitcher r) \<in> set [''john smith''])
      [john_row, jane_row, max_row] = [john_row]"
    by code_simp
  from pf have "extract_pitcher_starts grid_clock grid_doc [''john smith''] =
     (case extract_pitcher_starts grid_clock grid_doc [] of
        Inl e \<Rightarrow> Inl e
      | Inr (ws, rows) \<Rightarrow>
          Inr (ws, filter (\<lambda>r. [''john smith''] = [] \<or> lower (Pitcher r) \<in> set [''john smith'']) rows))"
    by (rule conjunct1)
  then have a: "extract_pitcher_starts grid_clock grid_doc [''john smith''] = Inr ([], [john_row])"
    by (simp only: grid_rows sum.case prod.case f)
  from pf grid_div_found grid_table_found grid_rows
  have b: "mset (map (\<lambda>r. (Handedness r, Pitcher r, Opponent r)) [john_row, jane_row, max_row]) =
       mset (map (\<lambda>e. (handedness e, pitcher_name e, formatted_opponent e))
         (List.map_filter parse_pitcher_entry
            (concat (map (\<lambda>tr. map get_text (find_all ''td'' tr))
               (tl (find_all ''tr'' grid_table))))))"
    by blast
  from grid_rows a b show ?thesis by blast
qed


section \<open>The order of the output\<close>

text \<open>
  C6: the rows returned are sorted by their date string, and the rows of one date keep the
  order in which the rows and cells were visited.
\<close>

theorem output_sorted_stable:
  assumes "extract_pitcher_starts now soup player_names = Inr (ws, rows)"
  shows "sorted (map Date rows)
    \<and> (\<forall>table_div table date_mapping d.
         find_class ''div'' ''table-scroll'' soup = Some table_div
         \<and> find_tag ''table'' table_div = Some table
         \<and> extract_dates_from_headers now soup = Inr date_mapping
         \<longrightarrow> filter (\<lambda>r. Date r = d) rows =
             filter (\<lambda>r. Date r = d)
               (table_loop date_mapping player_names (tl (find_all ''tr'' table))))"
proof
  from extract_cases[OF assms] show "sorted (map Date rows)"
    by (auto simp: sorted_sort_key)
next
  show "\<forall>table_div table date_mapping d.
         find_class ''div'' ''table-scroll'' soup = Some table_div
         \<and> find_tag ''table'' table_div = Some table
         \<and> extract_dates_from_headers now soup = Inr date_mapping
         \<longrightarrow> filter (\<lambda>r. Date r = d) rows =
             filter (\<lambda>r. Date r = d)
               (table_loop date_mapping player_names (tl (find_all ''tr'' table)))"
  proof (intro allI impI)
    fix table_div table date_mapping d
    assume h: "find_class ''div'' ''table-scroll'' soup = Some table_div
         \<and> find_tag ''table'' table_div = Some table
         \<and> extract_dates_from_headers now soup = Inr date_mapping"
    then have "rows = sort_key Date (table_loop date_mapping player_names (tl (find_all ''tr'' table)))"
      using assms by (simp add: extract_pitcher_starts_def)
    then show "filter (\<lambda>r. Date r = d) rows =
             filter (\<lambda>r. Date r = d)
               (table_loop date_mapping player_names (tl (find_all ''tr'' table)))"
      by (simp only: sort_key_stable)
  qed
qed


theorem output_sorted_stable_witness:
  "extract_pitcher_starts grid_clock grid_doc [] = Inr ([], [john_row, jane_row, max_row])
   \<and> sorted (map Date [john_row, jane_row, max_row])
   \<and> filter (\<lambda>r. Date r = ''Unknown'') [john_row, jane_row, max_row] =
       filter (\<lambda>r. Date r = ''Unknown'') [jane_row, john_row, max_row]"
proof -
  note st = output_sorted_stable[OF grid_rows]
  from st have s: "sorted (map Date [john_row, jane_row, max_row])" by (rule conjunct1)
  have "filter (\<lambda>r. Date r = ''Unknown'') [john_row, jane_row, max_row] =
       filter (\<lambda>r. Date r = ''Unknown'')
         (table_loop [1 \<mapsto> ''2026-03-10''] [] (tl (find_all ''tr'' grid_table)))"
    by (rule st[THEN conjunct2, rule_format,
          OF conjI[OF grid_div_found conjI[OF grid_table_found grid_dates]]])
  then have "filter (\<lambda>r. Date r = ''Unknown'') [john_row, jane_row, max_row] =
       filter (\<lambda>r. Date r = ''Unknown'') [jane_row, john_row, max_row]"
    by (simp only: grid_encounter)
  with grid_rows s show ?thesis by blast
qed


text \<open>
  C10: a resolved date starts with a digit and is less than \<open>Unknown\<close>, so in the output
  no row dated \<open>Unknown\<close> comes before a row with a resolved date.
\<close>

theorem unknown_dates_last:
  assumes "extract_pitcher_starts now soup player_names = Inr (ws, rows)"
  shows "(\<forall>r\<in>set rows. Date r \<noteq> ''Unknown'' \<longrightarrow>
            (\<exists>c s. Date r = c # s \<and> is_digit c) \<and> Date r < ''Unknown'')
    \<and> (\<forall>i j. i < j \<and> j < length rows \<and> Date (rows ! i) = ''Unknown''
           \<longrightarrow> Date (rows ! j) = ''Unknown'')"
proof -
  have resolved: "(\<exists>c s. Date r = c # s \<and> is_digit c) \<and> Date r < ''Unknown''"
    if r: "r \<in> set rows" and nu: "Date r \<noteq> ''Unknown''" for r
  proof -
    from extract_cases[OF assms] r obtain table dm where
      dm: "extract_dates_from_headers now soup = Inr dm"
      and rows: "rows = sort_key Date (table_loop dm player_names (tl (find_all ''tr'' table)))"
      by auto
    from r rows have "r \<in> set (table_loop dm player_names (tl (find_all ''tr'' table)))" by simp
    from table_loop_dates[OF this] nu obtain k where "dm k = Some (Date r)" by blast
    from date_mapping_digit[OF dm this] obtain c t where ct: "Date r = c # t" "is_digit c" by blast
    then show ?thesis using digit_before_unknown[of c t] by auto
  qed
  have sorted: "sorted (map Date rows)"
    using extract_cases[OF assms] by (auto simp: sorted_sort_key)
  have last: "Date (rows ! j) = ''Unknown''"
    if ij: "i < j" "j < length rows" and u: "Date (rows ! i) = ''Unknown''" for i j
  proof (rule ccontr)
    assume nu: "Date (rows ! j) \<noteq> ''Unknown''"
    have "rows ! j \<in> set rows" using ij by simp
    from resolved[OF this nu] have lt: "Date (rows ! j) < ''Unknown''" by simp
    have "map Date rows ! i \<le> map Date rows ! j"
      using sorted ij by (intro sorted_nth_mono) simp_all
    then have "Date (rows ! i) \<le> Date (rows ! j)" using ij by simp
    with u lt show False by simp
  qed
  show ?thesis using resolved last by blast
qed

theorem unknown_dates_last_witness:
  "extract_pitcher_starts grid_clock grid_doc [] = Inr ([], [john_row, jane_row, max_row])
   \<and> Date john_row < ''Unknown''
   \<and> Date ([john_row, jane_row, max_row] ! 1) = ''Unknown''
   \<and> Date ([john_row, jane_row, max_row] ! 2) = ''Unknown''"
proof -
  note ul = unknown_dates_last[OF grid_rows]
  have j: "john_row \<in> set [john_row, jane_row, max_row]" by simp
  have n: "Date john_row \<noteq> ''Unknown''" by (simp add: john_row_def)
  from ul j n have a: "Date john_row < ''Unknown''" by blast
  have u: "Date ([john_row, jane_row, max_row] ! 1) = ''Unknown''" by (simp add: jane_row_def)
  have "(1::nat) < 2 \<and> 2 < length [john_row, jane_row, max_row]
     \<and> Date ([john_row, jane_row, max_row] ! 1) = ''Unknown''"
    using u by simp
  with ul have "Date ([john_row, jane_row, max_row] ! 2) = ''Unknown''" by blast
  with grid_rows a u show ?thesis by blast
qed

section \<open>The year of a header date\<close>




section \<open>The columns of the date map\<close>





end
